theory Spec2Isabelle
  imports Main "HOL-Library.Sublist" "HOL-Library.Multiset" "HOL-Library.AList"
begin

section \<open>Data model\<close>

text \<open>
  An \<open>interface{}\<close> value as found inside \<open>Unstructured.Object\<close>: the decoded JSON of a
  cluster resource. A missing map key and an explicit null both read as \<open>INil\<close>.
\<close>

datatype iface =
    INil
  | IString string
  | IBool bool
  | INumber int
  | IList "iface list"
  | IMap "(string \<times> iface) list"

text \<open>\<open>metav1.OwnerReference\<close>; the engine reads the UID only.\<close>

record OwnerReference =
  ref_Kind :: string
  ref_Name :: string
  ref_UID :: string

text \<open>
  \<open>unstructured.Unstructured\<close>, seen through the accessors the engine calls
  (\<open>GetKind\<close>, \<open>GetAPIVersion\<close>, \<open>GetName\<close>, \<open>GetNamespace\<close>, \<open>GetUID\<close>,
  \<open>GetAnnotations\<close>, \<open>GetLabels\<close>, \<open>GetOwnerReferences\<close>) and the raw entry
  \<open>Object["spec"]\<close>, which \<open>Application\<close> reads by type assertion.
\<close>

record Unstructured =
  GetAPIVersion :: string
  GetKind :: string
  GetNamespace :: string
  GetName :: string
  GetUID :: string
  GetAnnotations :: "(string \<times> string) list"
  GetLabels :: "(string \<times> string) list"
  GetOwnerReferences :: "OwnerReference list"
  Object_spec :: iface

text \<open>A Go \<open>error\<close> value, as handed over by the cluster client or by a resolver.\<close>

datatype error = Error string

text \<open>\<open>schema.GroupVersionResource\<close>, \<open>metav1.APIResource\<close> and \<open>metav1.APIResourceList\<close>.\<close>

record GroupVersionResource =
  Group :: string
  Version :: string
  Resource :: string

record APIResource =
  api_Name :: string
  api_Kind :: string

record APIResourceList =
  list_Kind :: string
  GroupVersion :: string
  APIResources :: "APIResource list"

text \<open>
  Modelled from the spec: the node store (\<open>Graph.Node\<close>) is not part of the sources; the
  spec keys a node of the graph by (group, version, kind, namespace, name).
\<close>

record Node =
  node_Group :: string
  node_Version :: string
  node_Kind :: string
  node_Namespace :: string
  node_Name :: string

text \<open>
  The mutable world of one graph build. Objects live in a heap and are passed around by
  address (\<open>*unstructured.Unstructured\<close>); an address is an index into \<open>heap\<close> and
  allocation appends. \<open>nodes\<close> and \<open>edges\<close> are the graph: an edge is the triple handed to
  \<open>Graph.Relationship\<close>, in call order.
\<close>

type_synonym addr = nat

record world =
  heap :: "Unstructured list"
  nodes :: "Node list"
  edges :: "(Node \<times> string \<times> Node option) list"

text \<open>
  The cluster and the Go runtime, as far as the engine observes them: the discovery call,
  the dynamic client's list call, and the iteration orders that Go leaves unspecified
  (\<open>range\<close> over a map, \<open>Slice\<close> of a hash set). Map keys and set members are unique, so
  sorting by an arbitrary rank reaches every order the runtime may choose.
\<close>

record env =
  ServerPreferredResources :: "error + APIResourceList list"
  ListResource :: "GroupVersionResource \<Rightarrow> error + Unstructured list"
  map_rank :: "string \<Rightarrow> nat"
  set_rank :: "addr \<Rightarrow> nat"

text \<open>
  What a resolver hands back: Go's pair \<open>(*Node, error)\<close>, or a runtime panic.
\<close>

datatype result = Panic | Return "Node option" "error option"

text \<open>
  \<open>Graph.Unstructured\<close>, the graph-wide dispatcher every discovered child is resolved
  through. It is not part of the sources, so the resolvers take it as a parameter.
\<close>

type_synonym resolver = "addr \<Rightarrow> world \<Rightarrow> result \<times> world"

section \<open>Library operations used by the engine\<close>

text \<open>Reading through a pointer; a nil or dangling pointer panics (\<open>None\<close>).\<close>

definition deref :: "world \<Rightarrow> addr \<Rightarrow> Unstructured option" where
  "deref w a = (if a < length (heap w) then Some (heap w ! a) else None)"

text \<open>\<open>schema.ParseGroupVersion\<close>: \<open>None\<close> is its error return.\<close>

definition ParseGroupVersion :: "string \<Rightarrow> (string \<times> string) option" where
  "ParseGroupVersion gv =
     (if gv = [] \<or> gv = ''/'' then Some ([], [])
      else if count_list gv (CHR ''/'') = 0 then Some ([], gv)
      else if count_list gv (CHR ''/'') = 1
        then Some (takeWhile (\<lambda>c. c \<noteq> CHR ''/'') gv, tl (dropWhile (\<lambda>c. c \<noteq> CHR ''/'') gv))
      else None)"

text \<open>\<open>schema.FromAPIVersionAndKind(apiVersion, kind).GroupVersion()\<close>.\<close>

definition FromAPIVersion :: "string \<Rightarrow> string \<times> string" where
  "FromAPIVersion apiVersion =
     (case ParseGroupVersion apiVersion of Some gv \<Rightarrow> gv | None \<Rightarrow> ([], []))"

definition WithResource :: "string \<times> string \<Rightarrow> string \<Rightarrow> GroupVersionResource" where
  "WithResource gv r = \<lparr>Group = fst gv, Version = snd gv, Resource = r\<rparr>"

text \<open>\<open>GroupVersionResource.String\<close>, the key of the harvester's result map.\<close>

definition gvr_String :: "GroupVersionResource \<Rightarrow> string" where
  "gvr_String gvr = Group gvr @ ''/'' @ Version gvr @ '', Resource='' @ Resource gvr"

text \<open>\<open>strings.HasPrefix\<close>.\<close>

definition HasPrefix :: "string \<Rightarrow> string \<Rightarrow> bool" where
  "HasPrefix s p = (take (length p) s = p)"

text \<open>\<open>set.Insert\<close>, \<open>set.Contains\<close> and \<open>set.Slice\<close> of the hash set.\<close>

definition Insert :: "'a \<Rightarrow> 'a list \<Rightarrow> 'a list" where
  "Insert x s = (if x \<in> set s then s else s @ [x])"

definition Contains :: "'a list \<Rightarrow> 'a \<Rightarrow> bool" where
  "Contains s x = (x \<in> set s)"

definition Slice :: "env \<Rightarrow> addr list \<Rightarrow> addr list" where
  "Slice e s = sort_key (set_rank e) s"

text \<open>\<open>range\<close> over the result map: its entries, in the order the runtime picks.\<close>

definition range_map :: "env \<Rightarrow> (string \<times> addr list) list \<Rightarrow> (string \<times> addr list) list" where
  "range_map e m = sort_key (\<lambda>kv. map_rank e (fst kv)) m"

section \<open>Graph sink\<close>

text \<open>
  Modelled from the spec: \<open>Graph.Node\<close> and \<open>Graph.Relationship\<close> are not part of the
  sources. The spec's sink gets or creates the node of an object's identity (the same
  identity always yields the same node) and adds a labeled directed edge.
\<close>

definition node_of :: "Unstructured \<Rightarrow> Node" where
  "node_of u =
     \<lparr>node_Group = fst (FromAPIVersion (GetAPIVersion u)),
      node_Version = snd (FromAPIVersion (GetAPIVersion u)),
      node_Kind = GetKind u,
      node_Namespace = GetNamespace u,
      node_Name = GetName u\<rparr>"

definition graph_Node :: "Unstructured \<Rightarrow> world \<Rightarrow> Node \<times> world" where
  "graph_Node u w = (node_of u, w\<lparr>nodes := Insert (node_of u) (nodes w)\<rparr>)"

definition Relationship :: "Node \<Rightarrow> string \<Rightarrow> Node option \<Rightarrow> world \<Rightarrow> world" where
  "Relationship n label c w = w\<lparr>edges := edges w @ [(n, label, c)]\<rparr>"

section \<open>Bulk object harvester\<close>

text \<open>
  Lines 204-207 of \<open>getObjectsForAResource\<close>: every listed item is copied into a variable
  of its own and its address is kept.
\<close>

definition alloc :: "Unstructured list \<Rightarrow> world \<Rightarrow> addr list \<times> world" where
  "alloc items w =
     ([length (heap w) ..< length (heap w) + length items], w\<lparr>heap := heap w @ items\<rparr>)"

text \<open>
  \<open>getObjectsForAResource\<close>: one list call; a failure stores an empty slot and returns the
  error, a success stores the addresses of the items.
\<close>

definition getObjectsForAResource ::
  "env \<Rightarrow> GroupVersionResource \<Rightarrow> (string \<times> addr list) list \<Rightarrow> world
     \<Rightarrow> (error option \<times> (string \<times> addr list) list) \<times> world" where
  "getObjectsForAResource e gvr results w =
     (case ListResource e gvr of
        Inl err \<Rightarrow> ((Some err, AList.update (gvr_String gvr) [] results), w)
      | Inr items \<Rightarrow>
          (case alloc items w of
             (result, w') \<Rightarrow> ((None, AList.update (gvr_String gvr) result results), w')))"

definition applications_gvr :: GroupVersionResource where
  "applications_gvr = \<lparr>Group = ''argoproj.io'', Version = ''v1alpha1'', Resource = ''applications''\<rparr>"

text \<open>\<open>getChildApplications\<close>: the single list call is made in line and its error is returned.\<close>

definition getChildApplications :: "env \<Rightarrow> world \<Rightarrow> (addr list \<times> error option) \<times> world" where
  "getChildApplications e w =
     (case getObjectsForAResource e applications_gvr [] w of
        ((Some err, results), w') \<Rightarrow> (([], Some err), w')
      | ((None, results), w') \<Rightarrow> ((concat (map snd (range_map e results)), None), w'))"

text \<open>
  The inner loop of \<open>getAllObjects\<close> (lines 176-185): one task per resource of the group,
  Event kinds skipped, the task's error dropped by the \<open>go\<close> statement. The tasks write
  disjoint slots of the map under the lock, so the map after the barrier is the one
  obtained by running them in catalog order.
\<close>

fun harvest_group ::
  "env \<Rightarrow> string \<times> string \<Rightarrow> APIResource list \<Rightarrow> (string \<times> addr list) list \<Rightarrow> world
     \<Rightarrow> (string \<times> addr list) list \<times> world" where
  "harvest_group e gv [] results w = (results, w)"
| "harvest_group e gv (api # apis) results w =
     (if api_Kind api = ''Event'' then harvest_group e gv apis results w
      else (case getObjectsForAResource e (WithResource gv (api_Name api)) results w of
              ((err, results'), w') \<Rightarrow> harvest_group e gv apis results' w'))"

text \<open>The outer loop of \<open>getAllObjects\<close> (lines 173-190).\<close>

fun harvest_lists ::
  "env \<Rightarrow> APIResourceList list \<Rightarrow> addr list \<Rightarrow> world \<Rightarrow> addr list \<times> world" where
  "harvest_lists e [] objs w = (objs, w)"
| "harvest_lists e (apiResource # rest) objs w =
     (case harvest_group e (FromAPIVersion (GroupVersion apiResource))
             (APIResources apiResource) [] w of
        (results, w') \<Rightarrow>
          harvest_lists e rest (objs @ concat (map snd (range_map e results))) w')"

definition getAllObjects :: "env \<Rightarrow> world \<Rightarrow> (addr list \<times> error option) \<times> world" where
  "getAllObjects e w =
     (case ServerPreferredResources e of
        Inl err \<Rightarrow> (([], Some err), w)
      | Inr apiResources \<Rightarrow>
          (case harvest_lists e apiResources [] w of (objs, w') \<Rightarrow> ((objs, None), w')))"

section \<open>Relationship inference rules\<close>

text \<open>\<open>AppProject\<close>: the node of the object, no edges.\<close>

definition AppProject :: "addr \<Rightarrow> world \<Rightarrow> result \<times> world" where
  "AppProject obj w =
     (case deref w obj of
        None \<Rightarrow> (Panic, w)
      | Some u \<Rightarrow> (case graph_Node u w of (n, w') \<Rightarrow> (Return (Some n) None, w')))"

text \<open>
  Line 67 of \<open>Application\<close>:
  \<open>fields["spec"].(map[string]interface{})["project"].(string)\<close>. Both type assertions
  are of the single-result form, which panics when the value has another type (\<open>None\<close>).
\<close>

definition spec_project :: "iface \<Rightarrow> string option" where
  "spec_project spec =
     (case spec of
        IMap m \<Rightarrow> (case map_of m ''project'' of Some (IString p) \<Rightarrow> Some p | _ \<Rightarrow> None)
      | _ \<Rightarrow> None)"

text \<open>Lines 77-78: the object is the AppProject named by \<open>spec.project\<close>.\<close>

definition is_project :: "Unstructured \<Rightarrow> string \<Rightarrow> bool" where
  "is_project o' projName \<longleftrightarrow>
     GetKind o' = ''AppProject'' \<and> GetAPIVersion o' = ''argoproj.io/v1alpha1'' \<and>
     GetName o' = projName"

text \<open>Lines 87-88: the tracking-id annotation is present and starts with \<open>"<app name>:"\<close>.\<close>

definition tracked_by_annotation :: "Unstructured \<Rightarrow> string \<Rightarrow> bool" where
  "tracked_by_annotation o' appName \<longleftrightarrow>
     (case map_of (GetAnnotations o') ''argocd.argoproj.io/tracking-id'' of
        Some trackingID \<Rightarrow> HasPrefix trackingID (appName @ '':'')
      | None \<Rightarrow> False)"

text \<open>Lines 96-97: the instance label is present and equals the application's name.\<close>

definition tracked_by_label :: "Unstructured \<Rightarrow> string \<Rightarrow> bool" where
  "tracked_by_label o' appName \<longleftrightarrow>
     (case map_of (GetLabels o') ''app.kubernetes.io/instance'' of
        Some trackingLabel \<Rightarrow> trackingLabel = appName
      | None \<Rightarrow> False)"

text \<open>
  Lines 89-92 and 98-101: the object joins the children, and its namespace, when not
  empty, joins the namespaces.
\<close>

definition mark_child ::
  "addr \<Rightarrow> Unstructured \<Rightarrow> addr list \<times> string list \<Rightarrow> addr list \<times> string list" where
  "mark_child obj o' cn =
     (Insert obj (fst cn),
      if length (GetNamespace o') > 0 then Insert (GetNamespace o') (snd cn) else snd cn)"

text \<open>
  Lines 86-103: the annotation test, then the label test, each on its own.
\<close>

definition track_signals ::
  "addr \<Rightarrow> Unstructured \<Rightarrow> string \<Rightarrow> addr list \<times> string list \<Rightarrow> addr list \<times> string list" where
  "track_signals obj o' appName cn =
     (let cn1 = (if tracked_by_annotation o' appName then mark_child obj o' cn else cn)
      in if tracked_by_label o' appName then mark_child obj o' cn1 else cn1)"

text \<open>
  Lines 77-85: the project named by \<open>spec.project\<close> is resolved and linked at once. The
  first component is the early return of \<open>Application\<close>, if any.
\<close>

definition project_edge ::
  "resolver \<Rightarrow> Node \<Rightarrow> string \<Rightarrow> addr \<Rightarrow> Unstructured \<Rightarrow> world \<Rightarrow> result option \<times> world" where
  "project_edge disp n projName obj o' w =
     (if is_project o' projName then
        (case disp obj w of
           (Panic, w1) \<Rightarrow> (Some Panic, w1)
         | (Return childNode (Some err), w1) \<Rightarrow> (Some (Return (Some n) (Some err)), w1)
         | (Return childNode None, w1) \<Rightarrow>
             (case deref w1 obj of
                None \<Rightarrow> (Some Panic, w1)
              | Some o1 \<Rightarrow> (None, Relationship n (GetKind o1) childNode w1)))
      else (None, w))"

text \<open>
  The first loop of \<open>Application\<close> (lines 76-104). The three tests of the body are
  separate \<open>if\<close> statements: an object can pass more than one. \<open>Inl\<close> is an early return.
\<close>

fun track_children ::
  "resolver \<Rightarrow> Node \<Rightarrow> string \<Rightarrow> addr \<Rightarrow> addr list \<Rightarrow> addr list \<times> string list \<Rightarrow> world
     \<Rightarrow> (result + addr list \<times> string list) \<times> world" where
  "track_children disp n projName app [] cn w = (Inr cn, w)"
| "track_children disp n projName app (obj # objs) cn w =
     (case deref w obj of
        None \<Rightarrow> (Inl Panic, w)
      | Some o' \<Rightarrow>
          (case project_edge disp n projName obj o' w of
             (Some r, w1) \<Rightarrow> (Inl r, w1)
           | (None, w1) \<Rightarrow>
               (case (deref w1 obj, deref w1 app) of
                  (Some o1, Some a1) \<Rightarrow>
                    track_children disp n projName app objs
                      (track_signals obj o1 (GetName a1) cn) w1
                | _ \<Rightarrow> (Inl Panic, w1))))"

text \<open>
  The second loop (lines 106-110): every object whose namespace is among the namespaces
  joins the children. \<open>None\<close> is a panic.
\<close>

fun namespace_closure ::
  "world \<Rightarrow> string list \<Rightarrow> addr list \<Rightarrow> addr list \<Rightarrow> addr list option" where
  "namespace_closure w namespaces [] children = Some children"
| "namespace_closure w namespaces (obj # objs) children =
     (case deref w obj of
        None \<Rightarrow> None
      | Some o' \<Rightarrow>
          namespace_closure w namespaces objs
            (if Contains namespaces (GetNamespace o') then Insert obj children else children))"

text \<open>The third loop (lines 111-118): every child is resolved and linked.\<close>

fun resolve_children :: "resolver \<Rightarrow> Node \<Rightarrow> addr list \<Rightarrow> world \<Rightarrow> result \<times> world" where
  "resolve_children disp n [] w = (Return (Some n) None, w)"
| "resolve_children disp n (child # rest) w =
     (case disp child w of
        (Panic, w1) \<Rightarrow> (Panic, w1)
      | (Return childNode (Some err), w1) \<Rightarrow> (Return (Some n) (Some err), w1)
      | (Return childNode None, w1) \<Rightarrow>
          (case deref w1 child of
             None \<Rightarrow> (Panic, w1)
           | Some c \<Rightarrow> resolve_children disp n rest (Relationship n (GetKind c) childNode w1)))"

text \<open>\<open>Application\<close> (lines 63-119).\<close>

definition Application :: "env \<Rightarrow> resolver \<Rightarrow> addr \<Rightarrow> world \<Rightarrow> result \<times> world" where
  "Application e disp app w =
     (case deref w app of
        None \<Rightarrow> (Panic, w)
      | Some a \<Rightarrow>
          (case graph_Node a w of
             (n, w1) \<Rightarrow>
               (case spec_project (Object_spec a) of
                  None \<Rightarrow> (Panic, w1)
                | Some projName \<Rightarrow>
                    (case getAllObjects e w1 of
                       ((objs, Some err), w2) \<Rightarrow> (Return None (Some err), w2)
                     | ((objs, None), w2) \<Rightarrow>
                         (case track_children disp n projName app objs ([], []) w2 of
                            (Inl r, w3) \<Rightarrow> (r, w3)
                          | (Inr (children, namespaces), w3) \<Rightarrow>
                              (case namespace_closure w3 namespaces objs children of
                                 None \<Rightarrow> (Panic, w3)
                               | Some children' \<Rightarrow>
                                   resolve_children disp n (Slice e children') w3))))))"

text \<open>
  The inner loop of \<open>ApplicationSet\<close> (lines 130-138) over the owner references of one
  Application. The first component is the early return, if any.
\<close>

fun owner_refs ::
  "resolver \<Rightarrow> Node \<Rightarrow> addr \<Rightarrow> addr \<Rightarrow> OwnerReference list \<Rightarrow> world \<Rightarrow> result option \<times> world" where
  "owner_refs disp n appset obj [] w = (None, w)"
| "owner_refs disp n appset obj (ownerRef # rest) w =
     (case deref w appset of
        None \<Rightarrow> (Some Panic, w)
      | Some s \<Rightarrow>
          (if ref_UID ownerRef = GetUID s then
             (case disp obj w of
                (Panic, w1) \<Rightarrow> (Some Panic, w1)
              | (Return childNode (Some err), w1) \<Rightarrow> (Some (Return None (Some err)), w1)
              | (Return childNode None, w1) \<Rightarrow>
                  (case deref w1 obj of
                     None \<Rightarrow> (Some Panic, w1)
                   | Some o1 \<Rightarrow>
                       owner_refs disp n appset obj rest
                         (Relationship n (GetKind o1) childNode w1)))
           else owner_refs disp n appset obj rest w))"

text \<open>The outer loop of \<open>ApplicationSet\<close> (lines 128-140).\<close>

fun owned_applications ::
  "resolver \<Rightarrow> Node \<Rightarrow> addr \<Rightarrow> addr list \<Rightarrow> world \<Rightarrow> result \<times> world" where
  "owned_applications disp n appset [] w = (Return (Some n) None, w)"
| "owned_applications disp n appset (obj # objs) w =
     (case deref w obj of
        None \<Rightarrow> (Panic, w)
      | Some o' \<Rightarrow>
          (case owner_refs disp n appset obj (GetOwnerReferences o') w of
             (Some r, w1) \<Rightarrow> (r, w1)
           | (None, w1) \<Rightarrow> owned_applications disp n appset objs w1))"

text \<open>\<open>ApplicationSet\<close> (lines 122-141).\<close>

definition ApplicationSet :: "env \<Rightarrow> resolver \<Rightarrow> addr \<Rightarrow> world \<Rightarrow> result \<times> world" where
  "ApplicationSet e disp appset w =
     (case getChildApplications e w of
        ((objs, Some err), w1) \<Rightarrow> (Return None (Some err), w1)
      | ((objs, None), w1) \<Rightarrow>
          (case deref w1 appset of
             None \<Rightarrow> (Panic, w1)
           | Some s \<Rightarrow>
               (case graph_Node s w1 of
                  (n, w2) \<Rightarrow> owned_applications disp n appset objs w2)))"

text \<open>\<open>Unstructured\<close> (lines 49-60): the switch on the kind.\<close>

definition Unstructured_dispatch :: "env \<Rightarrow> resolver \<Rightarrow> addr \<Rightarrow> world \<Rightarrow> result \<times> world" where
  "Unstructured_dispatch e disp unstr w =
     (case deref w unstr of
        None \<Rightarrow> (Panic, w)
      | Some u \<Rightarrow>
          (if GetKind u = ''ApplicationSet'' then ApplicationSet e disp unstr w
           else if GetKind u = ''Application'' then Application e disp unstr w
           else if GetKind u = ''AppProject'' then AppProject unstr w
           else (case graph_Node u w of (n, w') \<Rightarrow> (Return (Some n) None, w'))))"

section \<open>Assumptions on the graph-wide dispatcher\<close>

text \<open>
  The resolvers are verified against any dispatcher that treats the objects as read-only
  (it may allocate, it never overwrites) and never removes an edge from the graph.
\<close>

definition heap_stable :: "resolver \<Rightarrow> bool" where
  "heap_stable disp \<longleftrightarrow> (\<forall>a w. prefix (heap w) (heap (snd (disp a w))))"

definition edges_kept :: "resolver \<Rightarrow> bool" where
  "edges_kept disp \<longleftrightarrow> (\<forall>a w. set (edges w) \<subseteq> set (edges (snd (disp a w))))"

text \<open>The dispatcher adds no edge that leaves the node \<open>n\<close>.\<close>

definition no_edges_from :: "Node \<Rightarrow> resolver \<Rightarrow> bool" where
  "no_edges_from n disp \<longleftrightarrow>
     (\<forall>a w. \<forall>ed \<in> set (edges (snd (disp a w))). fst ed = n \<longrightarrow> ed \<in> set (edges w))"

text \<open>
  The same for the calls a resolver makes on the objects \<open>objs\<close> it has harvested: the
  objects are given, and the world is one that still holds the harvest \<open>w0\<close>.
\<close>

definition no_edges_from_on :: "Node \<Rightarrow> resolver \<Rightarrow> addr list \<Rightarrow> world \<Rightarrow> bool" where
  "no_edges_from_on n disp objs w0 \<longleftrightarrow>
     (\<forall>obj \<in> set objs. \<forall>w. prefix (heap w0) (heap w) \<longrightarrow>
        (\<forall>ed \<in> set (edges (snd (disp obj w))). fst ed = n \<longrightarrow> ed \<in> set (edges w)))"

section \<open>A cluster to run the engine on\<close>

text \<open>
  The scenario of the spec: Application \<open>app1\<close> of project \<open>proj1\<close>; the cluster serves
  ConfigMaps, Secrets, Events and AppProjects, and holds the ConfigMap \<open>cm1\<close> in \<open>ns1\<close>
  with the instance label, the Secret \<open>sec1\<close> in \<open>ns1\<close> without labels, and \<open>proj1\<close>.
\<close>

definition object :: "string \<Rightarrow> string \<Rightarrow> string \<Rightarrow> string \<Rightarrow> Unstructured" where
  "object apiVersion kind namespace name =
     \<lparr>GetAPIVersion = apiVersion, GetKind = kind, GetNamespace = namespace, GetName = name,
      GetUID = [], GetAnnotations = [], GetLabels = [], GetOwnerReferences = [],
      Object_spec = INil\<rparr>"

definition app1 :: Unstructured where
  "app1 = (object ''argoproj.io/v1alpha1'' ''Application'' ''argocd'' ''app1'')
            \<lparr>Object_spec := IMap [(''project'', IString ''proj1'')]\<rparr>"

definition cm1 :: Unstructured where
  "cm1 = (object ''v1'' ''ConfigMap'' ''ns1'' ''cm1'')
           \<lparr>GetLabels := [(''app.kubernetes.io/instance'', ''app1'')]\<rparr>"

definition sec1 :: Unstructured where
  "sec1 = object ''v1'' ''Secret'' ''ns1'' ''sec1''"

definition proj1 :: Unstructured where
  "proj1 = object ''argoproj.io/v1alpha1'' ''AppProject'' ''argocd'' ''proj1''"

definition catalog1 :: "APIResourceList list" where
  "catalog1 =
     [\<lparr>list_Kind = [], GroupVersion = ''v1'',
       APIResources = [\<lparr>api_Name = ''configmaps'', api_Kind = ''ConfigMap''\<rparr>,
                       \<lparr>api_Name = ''secrets'', api_Kind = ''Secret''\<rparr>,
                       \<lparr>api_Name = ''events'', api_Kind = ''Event''\<rparr>]\<rparr>,
      \<lparr>list_Kind = [], GroupVersion = ''argoproj.io/v1alpha1'',
       APIResources = [\<lparr>api_Name = ''appprojects'', api_Kind = ''AppProject''\<rparr>]\<rparr>]"

definition list1 :: "GroupVersionResource \<Rightarrow> error + Unstructured list" where
  "list1 gvr =
     (if Resource gvr = ''configmaps'' then Inr [cm1]
      else if Resource gvr = ''secrets'' then Inr [sec1]
      else if Resource gvr = ''appprojects'' then Inr [proj1]
      else Inl (Error ''the server could not find the requested resource''))"

definition cluster1 :: env where
  "cluster1 = \<lparr>ServerPreferredResources = Inr catalog1, ListResource = list1,
                map_rank = (\<lambda>k. 0), set_rank = (\<lambda>a. 0)\<rparr>"

definition world1 :: world where
  "world1 = \<lparr>heap = [app1], nodes = [], edges = []\<rparr>"

definition world2 :: world where
  "world2 = \<lparr>heap = [app1, cm1, sec1, proj1], nodes = [node_of app1], edges = []\<rparr>"

text \<open>Applications whose \<open>spec\<close> lacks a project, or holds a number in its place.\<close>

definition world_no_project :: world where
  "world_no_project = \<lparr>heap = [app1\<lparr>Object_spec := IMap []\<rparr>], nodes = [], edges = []\<rparr>"

definition world_bad_project :: world where
  "world_bad_project =
     \<lparr>heap = [app1\<lparr>Object_spec := IMap [(''project'', INumber 7)]\<rparr>], nodes = [], edges = []\<rparr>"

text \<open>
  A cluster with a Deployment that carries the tracking-id annotation of \<open>app1\<close>.
\<close>

definition dep1 :: Unstructured where
  "dep1 = (object ''apps/v1'' ''Deployment'' ''ns1'' ''dep1'')
            \<lparr>GetAnnotations :=
               [(''argocd.argoproj.io/tracking-id'', ''app1:apps/Deployment:ns1/dep1'')]\<rparr>"

definition cluster2 :: env where
  "cluster2 =
     \<lparr>ServerPreferredResources =
        Inr [\<lparr>list_Kind = [], GroupVersion = ''apps/v1'',
              APIResources = [\<lparr>api_Name = ''deployments'', api_Kind = ''Deployment''\<rparr>]\<rparr>],
      ListResource = (\<lambda>gvr. if Resource gvr = ''deployments'' then Inr [dep1]
                             else Inl (Error ''the server could not find the requested resource'')),
      map_rank = (\<lambda>k. 0), set_rank = (\<lambda>a. 0)\<rparr>"

text \<open>
  A cluster with cluster-scoped objects only: the ClusterRole \<open>cr1\<close> with the instance
  label of \<open>app1\<close>, and the Namespace \<open>ns1\<close> without labels. Both have an empty namespace.
\<close>

definition cr1 :: Unstructured where
  "cr1 = (object ''rbac.authorization.k8s.io/v1'' ''ClusterRole'' [] ''cr1'')
           \<lparr>GetLabels := [(''app.kubernetes.io/instance'', ''app1'')]\<rparr>"

definition ns1 :: Unstructured where
  "ns1 = object ''v1'' ''Namespace'' [] ''ns1''"

definition cluster3 :: env where
  "cluster3 =
     \<lparr>ServerPreferredResources =
        Inr [\<lparr>list_Kind = [], GroupVersion = ''rbac.authorization.k8s.io/v1'',
              APIResources = [\<lparr>api_Name = ''clusterroles'', api_Kind = ''ClusterRole''\<rparr>]\<rparr>,
             \<lparr>list_Kind = [], GroupVersion = ''v1'',
              APIResources = [\<lparr>api_Name = ''namespaces'', api_Kind = ''Namespace''\<rparr>]\<rparr>],
      ListResource = (\<lambda>gvr. if Resource gvr = ''clusterroles'' then Inr [cr1]
                             else if Resource gvr = ''namespaces'' then Inr [ns1]
                             else Inl (Error ''the server could not find the requested resource'')),
      map_rank = (\<lambda>k. 0), set_rank = (\<lambda>a. 0)\<rparr>"

text \<open>
  A cluster whose only object is the AppProject \<open>proj2\<close>, which is not the project of
  \<open>app1\<close> but carries its instance label.
\<close>

definition proj2 :: Unstructured where
  "proj2 = (object ''argoproj.io/v1alpha1'' ''AppProject'' ''argocd'' ''proj2'')
             \<lparr>GetLabels := [(''app.kubernetes.io/instance'', ''app1'')]\<rparr>"

definition cluster4 :: env where
  "cluster4 =
     \<lparr>ServerPreferredResources =
        Inr [\<lparr>list_Kind = [], GroupVersion = ''argoproj.io/v1alpha1'',
              APIResources = [\<lparr>api_Name = ''appprojects'', api_Kind = ''AppProject''\<rparr>]\<rparr>],
      ListResource = (\<lambda>gvr. if Resource gvr = ''appprojects'' then Inr [proj2]
                             else Inl (Error ''the server could not find the requested resource'')),
      map_rank = (\<lambda>k. 0), set_rank = (\<lambda>a. 0)\<rparr>"

text \<open>A cluster whose discovery call fails, and a dispatcher that fails on every object.\<close>

definition cluster_down :: env where
  "cluster_down = cluster1\<lparr>ServerPreferredResources := Inl (Error ''connection refused'')\<rparr>"

definition failing :: resolver where
  "failing obj w = (Return None (Some (Error ''child resolution failed'')), w)"

text \<open>
  The second scenario of the spec: ApplicationSet \<open>set1\<close> with UID \<open>u1\<close>; Application
  \<open>child1\<close> is owned by it, Application \<open>child2\<close> only carries the instance label
  \<open>set1\<close>.
\<close>

definition set1 :: Unstructured where
  "set1 = (object ''argoproj.io/v1alpha1'' ''ApplicationSet'' ''argocd'' ''set1'')
            \<lparr>GetUID := ''u1''\<rparr>"

definition child1 :: Unstructured where
  "child1 = (object ''argoproj.io/v1alpha1'' ''Application'' ''argocd'' ''child1'')
              \<lparr>GetOwnerReferences :=
                 [\<lparr>ref_Kind = ''ApplicationSet'', ref_Name = ''set1'', ref_UID = ''u1''\<rparr>],
               Object_spec := IMap [(''project'', IString ''default'')]\<rparr>"

definition child2 :: Unstructured where
  "child2 = (object ''argoproj.io/v1alpha1'' ''Application'' ''argocd'' ''child2'')
              \<lparr>GetLabels := [(''app.kubernetes.io/instance'', ''set1'')],
               Object_spec := IMap [(''project'', IString ''default'')]\<rparr>"

definition cluster5 :: env where
  "cluster5 =
     \<lparr>ServerPreferredResources =
        Inr [\<lparr>list_Kind = [], GroupVersion = ''argoproj.io/v1alpha1'',
              APIResources = [\<lparr>api_Name = ''applications'', api_Kind = ''Application''\<rparr>]\<rparr>],
      ListResource = (\<lambda>gvr. if gvr = applications_gvr then Inr [child1, child2]
                             else Inl (Error ''the server could not find the requested resource'')),
      map_rank = (\<lambda>k. 0), set_rank = (\<lambda>a. 0)\<rparr>"

definition world_set1 :: world where
  "world_set1 = \<lparr>heap = [set1], nodes = [], edges = []\<rparr>"

text \<open>
  The cluster as the engine sees it once every failed list call is taken for an empty
  list.
\<close>

definition absorb_list_failures :: "env \<Rightarrow> env" where
  "absorb_list_failures e =
     e\<lparr>ListResource := (\<lambda>gvr. case ListResource e gvr of
                                 Inl err \<Rightarrow> Inr []
                               | Inr items \<Rightarrow> Inr items)\<rparr>"

section \<open>What one group of the harvest holds\<close>

text \<open>The objects a list call contributes: its items, or nothing when it fails.\<close>

definition listed :: "env \<Rightarrow> string \<times> string \<Rightarrow> string \<Rightarrow> Unstructured list" where
  "listed e gv name =
     (case ListResource e (WithResource gv name) of Inl err \<Rightarrow> [] | Inr items \<Rightarrow> items)"

text \<open>The resources of a group that are listed: all but the Event kinds, by name.\<close>

definition listed_names :: "APIResource list \<Rightarrow> string list" where
  "listed_names apis = map api_Name (filter (\<lambda>api. api_Kind api \<noteq> ''Event'') apis)"

text \<open>
  The state of the result map of a group while its resources are being listed: \<open>N\<close> are
  the names listed so far, \<open>base\<close> is the size of the heap when the group was started.
  Every name has its slot, the slots hold distinct addresses allocated since \<open>base\<close>,
  and the addresses of a slot point to the items listed under its name.
\<close>

definition slots_ok ::
  "env \<Rightarrow> string \<times> string \<Rightarrow> nat \<Rightarrow> string set \<Rightarrow> (string \<times> addr list) list \<Rightarrow> world \<Rightarrow> bool" where
  "slots_ok e gv base N results w \<longleftrightarrow>
     base \<le> length (heap w) \<and>
     distinct (map fst results) \<and>
     distinct (concat (map snd results)) \<and>
     (\<forall>a \<in> set (concat (map snd results)). base \<le> a \<and> a < length (heap w)) \<and>
     fst ` set results = (\<lambda>name. gvr_String (WithResource gv name)) ` N \<and>
     (\<forall>name \<in> N. \<forall>ptrs. map_of results (gvr_String (WithResource gv name)) = Some ptrs \<longrightarrow>
        map (deref w) ptrs = map Some (listed e gv name))"

section \<open>Evaluation\<close>

lemmas cluster_defs = object_def app1_def cm1_def sec1_def proj1_def catalog1_def list1_def
  cluster1_def world1_def world2_def world_no_project_def world_bad_project_def
  dep1_def cluster2_def cr1_def ns1_def cluster3_def proj2_def cluster4_def cluster_down_def
  failing_def set1_def child1_def child2_def cluster5_def world_set1_def applications_gvr_def

lemmas engine_defs = Application_def getAllObjects_def getObjectsForAResource_def alloc_def
  range_map_def Slice_def deref_def graph_Node_def node_of_def Relationship_def AppProject_def
  project_edge_def is_project_def track_signals_def tracked_by_annotation_def
  tracked_by_label_def mark_child_def Insert_def Contains_def spec_project_def HasPrefix_def
  FromAPIVersion_def ParseGroupVersion_def WithResource_def gvr_String_def
  ApplicationSet_def getChildApplications_def Unstructured_dispatch_def

section \<open>The hash sets\<close>

lemma set_Insert [simp]: "set (Insert x s) = insert x (set s)"
  by (auto simp: Insert_def)

lemma distinct_Insert [simp]: "distinct (Insert x s) = distinct s"
  by (auto simp: Insert_def)

lemma set_Slice [simp]: "set (Slice e s) = set s"
  by (simp add: Slice_def)

lemma track_signals_children:
  "set (fst (track_signals obj o' appName cn)) =
     (if tracked_by_annotation o' appName \<or> tracked_by_label o' appName
      then insert obj (set (fst cn)) else set (fst cn))"
  by (simp add: track_signals_def mark_child_def Let_def)

lemma track_signals_namespaces:
  "set (snd (track_signals obj o' appName cn)) =
     (if (tracked_by_annotation o' appName \<or> tracked_by_label o' appName) \<and> GetNamespace o' \<noteq> []
      then insert (GetNamespace o') (set (snd cn)) else set (snd cn))"
  by (simp add: track_signals_def mark_child_def Let_def)

section \<open>The loops of Application, one step at a time\<close>

lemma track_children_Cons_Inr:
  assumes "track_children disp n projName app (obj # objs) cn w = (Inr cn', w')"
  obtains o' w1 o1 a1 where
    "deref w obj = Some o'" "project_edge disp n projName obj o' w = (None, w1)"
    "deref w1 obj = Some o1" "deref w1 app = Some a1"
    "track_children disp n projName app objs (track_signals obj o1 (GetName a1) cn) w1 = (Inr cn', w')"
  using assms by (auto split: option.splits prod.splits)

lemma track_children_no_empty_namespace:
  "track_children disp n projName app objs cn w = (Inr cn', w') \<Longrightarrow>
   [] \<notin> set (snd cn) \<Longrightarrow> [] \<notin> set (snd cn')"
proof (induction objs arbitrary: cn w)
  case Nil
  then show ?case by simp
next
  case (Cons obj objs)
  from Cons.prems(1) obtain w1 o1 and a1 :: Unstructured where
    step: "track_children disp n projName app objs (track_signals obj o1 (GetName a1) cn) w1 = (Inr cn', w')"
    by (rule track_children_Cons_Inr)
  have "[] \<notin> set (snd (track_signals obj o1 (GetName a1) cn))"
    using Cons.prems(2) by (auto simp: track_signals_namespaces)
  with Cons.IH [OF step] show ?case .
qed

lemma namespace_closure_members:
  "namespace_closure w namespaces objs children = Some children' \<Longrightarrow>
   obj \<in> set children' \<Longrightarrow>
   obj \<in> set children \<or>
   (obj \<in> set objs \<and> (\<exists>o'. deref w obj = Some o' \<and> GetNamespace o' \<in> set namespaces))"
proof (induction objs arbitrary: children)
  case Nil
  then show ?case by simp
next
  case (Cons x objs)
  then show ?case
    by (fastforce simp: Contains_def split: option.splits if_splits)
qed

section \<open>Malformed Applications\<close>

text \<open>
  C5, as the code has it: when \<open>spec.project\<close> of an Application is missing or is not a
  string, the type assertion of line 67 panics. The Application's node has been created
  by then; the harvester is never called and neither a node nor an error value is
  returned to the caller.
\<close>

theorem Application_malformed_spec_panics:
  assumes "deref w app = Some a"
    and "\<not> (\<exists>m p. Object_spec a = IMap m \<and> map_of m ''project'' = Some (IString p))"
  shows "Application e disp app w = (Panic, snd (graph_Node a w))"
proof -
  have "spec_project (Object_spec a) = None"
    using assms(2) by (auto simp: spec_project_def split: iface.splits option.splits)
  then show ?thesis
    using assms(1) by (simp add: Application_def split: prod.splits)
qed

theorem Application_malformed_spec_panics_witness:
  "deref world_bad_project 0 = Some (app1\<lparr>Object_spec := IMap [(''project'', INumber 7)]\<rparr>) \<and>
   Application cluster1 AppProject 0 world_bad_project =
     (Panic, snd (graph_Node (app1\<lparr>Object_spec := IMap [(''project'', INumber 7)]\<rparr>) world_bad_project))"
proof -
  have d: "deref world_bad_project 0 = Some (app1\<lparr>Object_spec := IMap [(''project'', INumber 7)]\<rparr>)"
    by (simp add: deref_def world_bad_project_def)
  have n: "\<not> (\<exists>m p. Object_spec (app1\<lparr>Object_spec := IMap [(''project'', INumber 7)]\<rparr>) = IMap m \<and>
             map_of m ''project'' = Some (IString p))"
    by simp
  show ?thesis
    using d Application_malformed_spec_panics [OF d n, of cluster1 AppProject] by simp
qed

text \<open>
  C5 as stated fails: an Application without \<open>spec.project\<close> makes the resolver panic; no
  error is returned.
\<close>

theorem Application_missing_project_counterexample:
  "fst (Application cluster1 AppProject 0 world_no_project) = Panic"
  by (simp add: Application_def deref_def world_no_project_def graph_Node_def spec_project_def)

section \<open>The namespaces of the tracked children\<close>

text \<open>
  C10: the first loop of \<open>Application\<close> never puts the empty string among the namespaces
  (it keeps that property from one iteration to the next, and starts from the empty
  set), so the second loop adds no object whose namespace is empty: such an object is
  among the children afterwards only if the first loop had put it there.
\<close>

theorem namespaces_never_hold_empty_string:
  assumes "[] \<notin> set (snd cn)"
    and "fst (track_children disp n projName app objs cn w) = Inr (children, namespaces)"
  shows "[] \<notin> set namespaces \<and>
         (\<forall>w' children' obj o'.
            namespace_closure w' namespaces objs children = Some children' \<and>
            obj \<in> set children' \<and> deref w' obj = Some o' \<and> GetNamespace o' = []
            \<longrightarrow> obj \<in> set children)"
proof -
  obtain w1 where run: "track_children disp n projName app objs cn w = (Inr (children, namespaces), w1)"
    using assms(2) by (cases "track_children disp n projName app objs cn w") simp
  have ne: "[] \<notin> set namespaces"
    using track_children_no_empty_namespace [OF run assms(1)] by simp
  have "obj \<in> set children"
    if "namespace_closure w' namespaces objs children = Some children'"
      and "obj \<in> set children'" and "deref w' obj = Some o'" and "GetNamespace o' = []"
    for w' children' obj o'
    using namespace_closure_members [OF that(1,2)] that(3,4) ne by auto
  with ne show ?thesis by blast
qed

theorem namespaces_never_hold_empty_string_witness:
  "[] \<notin> set (snd (([], []) :: addr list \<times> string list)) \<and>
   fst (track_children AppProject (node_of app1) ''proj1'' 0 [1, 2, 3] ([], []) world2)
     = Inr ([1], [''ns1'']) \<and>
   [] \<notin> set [''ns1'']"
proof -
  have a: "[] \<notin> set (snd (([], []) :: addr list \<times> string list))" by simp
  have b: "fst (track_children AppProject (node_of app1) ''proj1'' 0 [1, 2, 3] ([], []) world2)
             = Inr ([1], [''ns1''])"
    by (simp add: cluster_defs engine_defs)
  show ?thesis
    using a b namespaces_never_hold_empty_string [OF a b] by simp
qed

section \<open>The objects are read, never written\<close>

lemma deref_prefix:
  "prefix (heap w) (heap w') \<Longrightarrow> deref w a = Some u \<Longrightarrow> deref w' a = Some u"
  by (auto simp: deref_def prefix_def nth_append split: if_splits)

lemma deref_Relationship [simp]: "deref (Relationship n l c w) a = deref w a"
  by (simp add: deref_def Relationship_def)

lemma heap_Relationship [simp]: "heap (Relationship n l c w) = heap w"
  by (simp add: Relationship_def)

lemma edges_Relationship [simp]: "edges (Relationship n l c w) = edges w @ [(n, l, c)]"
  by (simp add: Relationship_def)

lemma graph_Node_simps [simp]:
  "fst (graph_Node u w) = node_of u"
  "heap (snd (graph_Node u w)) = heap w"
  "edges (snd (graph_Node u w)) = edges w"
  "deref (snd (graph_Node u w)) a = deref w a"
  by (simp_all add: graph_Node_def deref_def)

lemma alloc_simps [simp]:
  "fst (alloc items w) = [length (heap w) ..< length (heap w) + length items]"
  "heap (snd (alloc items w)) = heap w @ items"
  "edges (snd (alloc items w)) = edges w"
  "nodes (snd (alloc items w)) = nodes w"
  by (simp_all add: alloc_def)

lemma getObjectsForAResource_frame:
  assumes "getObjectsForAResource e gvr results w = (r, w')"
  shows "prefix (heap w) (heap w')" "edges w' = edges w" "nodes w' = nodes w"
  using assms
  by (auto simp: getObjectsForAResource_def alloc_def split: sum.splits)

lemma harvest_group_frame:
  "harvest_group e gv apis results w = (results', w') \<Longrightarrow>
   prefix (heap w) (heap w') \<and> edges w' = edges w \<and> nodes w' = nodes w"
proof (induction apis arbitrary: results w)
  case Nil
  then show ?case by simp
next
  case (Cons api apis)
  show ?case
  proof (cases "api_Kind api = ''Event''")
    case True
    then show ?thesis using Cons by simp
  next
    case False
    obtain err results1 w1 where
      g: "getObjectsForAResource e (WithResource gv (api_Name api)) results w = ((err, results1), w1)"
      by (metis surj_pair)
    from Cons.prems False g have "harvest_group e gv apis results1 w1 = (results', w')"
      by simp
    from Cons.IH [OF this] getObjectsForAResource_frame [OF g] show ?thesis
      by (auto intro: prefix_order.trans)
  qed
qed

lemma harvest_lists_frame:
  "harvest_lists e ls objs w = (objs', w') \<Longrightarrow>
   prefix (heap w) (heap w') \<and> edges w' = edges w \<and> nodes w' = nodes w"
proof (induction ls arbitrary: objs w)
  case Nil
  then show ?case by simp
next
  case (Cons l ls)
  obtain results w1 where
    g: "harvest_group e (FromAPIVersion (GroupVersion l)) (APIResources l) [] w = (results, w1)"
    by (metis surj_pair)
  from Cons.prems g
  have "harvest_lists e ls (objs @ concat (map snd (range_map e results))) w1 = (objs', w')"
    by simp
  from Cons.IH [OF this] harvest_group_frame [OF g] show ?case
    by (auto intro: prefix_order.trans)
qed

lemma getAllObjects_frame:
  assumes "getAllObjects e w = (r, w')"
  shows "prefix (heap w) (heap w')" "edges w' = edges w" "nodes w' = nodes w"
  using assms
  by (auto simp: getAllObjects_def split: sum.splits prod.splits dest: harvest_lists_frame)

lemma getChildApplications_frame:
  assumes "getChildApplications e w = (r, w')"
  shows "prefix (heap w) (heap w')" "edges w' = edges w" "nodes w' = nodes w"
  using assms
  by (auto simp: getChildApplications_def split: prod.splits option.splits
      dest: getObjectsForAResource_frame)

lemma heap_stableD:
  "heap_stable disp \<Longrightarrow> disp a w = (r, w1) \<Longrightarrow> prefix (heap w) (heap w1)"
  by (metis heap_stable_def snd_conv)

lemma edges_keptD:
  "edges_kept disp \<Longrightarrow> disp a w = (r, w1) \<Longrightarrow> set (edges w) \<subseteq> set (edges w1)"
  by (metis edges_kept_def snd_conv)

lemma project_edge_heap:
  assumes "heap_stable disp" and "project_edge disp n projName obj o' w = (r, w1)"
  shows "prefix (heap w) (heap w1)"
  using assms(2) heap_stableD [OF assms(1)]
  by (auto simp: project_edge_def split: if_splits prod.splits result.splits option.splits)

lemma project_edge_edges:
  assumes "edges_kept disp" and "project_edge disp n projName obj o' w = (r, w1)"
  shows "set (edges w) \<subseteq> set (edges w1)"
  using assms(2) edges_keptD [OF assms(1)]
  by (fastforce simp: project_edge_def split: if_splits prod.splits result.splits option.splits)

lemma track_children_heap:
  "heap_stable disp \<Longrightarrow> track_children disp n projName app objs cn w = (r, w') \<Longrightarrow>
   prefix (heap w) (heap w')"
proof (induction objs arbitrary: cn w)
  case Nil
  then show ?case by simp
next
  case (Cons obj objs)
  show ?case
  proof (cases "deref w obj")
    case None
    with Cons.prems show ?thesis by simp
  next
    case (Some o')
    obtain r1 w1 where p: "project_edge disp n projName obj o' w = (r1, w1)"
      by (metis surj_pair)
    note h1 = project_edge_heap [OF Cons.prems(1) p]
    show ?thesis
    proof (cases "r1 = None \<and> deref w1 obj \<noteq> None \<and> deref w1 app \<noteq> None")
      case True
      then obtain o1 a1 where d: "deref w1 obj = Some o1" "deref w1 app = Some a1"
        by auto
      with Cons.prems(2) Some p True
      have "track_children disp n projName app objs (track_signals obj o1 (GetName a1) cn) w1 = (r, w')"
        by simp
      from Cons.IH [OF Cons.prems(1) this] h1 show ?thesis
        by (rule prefix_order.trans [rotated])
    next
      case False
      with Cons.prems(2) Some p have "w' = w1"
        by (auto split: option.splits)
      with h1 show ?thesis by simp
    qed
  qed
qed

lemma track_children_edges:
  "edges_kept disp \<Longrightarrow> track_children disp n projName app objs cn w = (r, w') \<Longrightarrow>
   set (edges w) \<subseteq> set (edges w')"
proof (induction objs arbitrary: cn w)
  case Nil
  then show ?case by simp
next
  case (Cons obj objs)
  show ?case
  proof (cases "deref w obj")
    case None
    with Cons.prems show ?thesis by simp
  next
    case (Some o')
    obtain r1 w1 where p: "project_edge disp n projName obj o' w = (r1, w1)"
      by (metis surj_pair)
    note h1 = project_edge_edges [OF Cons.prems(1) p]
    show ?thesis
    proof (cases "r1 = None \<and> deref w1 obj \<noteq> None \<and> deref w1 app \<noteq> None")
      case True
      then obtain o1 a1 where d: "deref w1 obj = Some o1" "deref w1 app = Some a1"
        by auto
      with Cons.prems(2) Some p True
      have "track_children disp n projName app objs (track_signals obj o1 (GetName a1) cn) w1 = (r, w')"
        by simp
      from Cons.IH [OF Cons.prems(1) this] h1 show ?thesis
        by blast
    next
      case False
      with Cons.prems(2) Some p have "w' = w1"
        by (auto split: option.splits)
      with h1 show ?thesis by simp
    qed
  qed
qed

lemma resolve_children_heap:
  "heap_stable disp \<Longrightarrow> resolve_children disp n cs w = (r, w') \<Longrightarrow> prefix (heap w) (heap w')"
proof (induction cs arbitrary: w)
  case Nil
  then show ?case by simp
next
  case (Cons c cs)
  obtain r1 w1 where d: "disp c w = (r1, w1)" by (metis surj_pair)
  note h1 = heap_stableD [OF Cons.prems(1) d]
  show ?case
  proof (cases "\<exists>cn o1. r1 = Return cn None \<and> deref w1 c = Some o1")
    case True
    then obtain cn o1 where t: "r1 = Return cn None" "deref w1 c = Some o1" by blast
    with Cons.prems(2) d
    have "resolve_children disp n cs (Relationship n (GetKind o1) cn w1) = (r, w')"
      by simp
    from Cons.IH [OF Cons.prems(1) this] h1 show ?thesis
      by (auto intro: prefix_order.trans)
  next
    case False
    with Cons.prems(2) d have "w' = w1"
      by (auto split: result.splits option.splits)
    with h1 show ?thesis by simp
  qed
qed

lemma resolve_children_edges:
  "edges_kept disp \<Longrightarrow> resolve_children disp n cs w = (r, w') \<Longrightarrow>
   set (edges w) \<subseteq> set (edges w')"
proof (induction cs arbitrary: w)
  case Nil
  then show ?case by simp
next
  case (Cons c cs)
  obtain r1 w1 where d: "disp c w = (r1, w1)" by (metis surj_pair)
  note h1 = edges_keptD [OF Cons.prems(1) d]
  show ?case
  proof (cases "\<exists>cn o1. r1 = Return cn None \<and> deref w1 c = Some o1")
    case True
    then obtain cn o1 where t: "r1 = Return cn None" "deref w1 c = Some o1" by blast
    with Cons.prems(2) d
    have "resolve_children disp n cs (Relationship n (GetKind o1) cn w1) = (r, w')"
      by simp
    from Cons.IH [OF Cons.prems(1) this] h1 show ?thesis
      by auto
  next
    case False
    with Cons.prems(2) d have "w' = w1"
      by (auto split: result.splits option.splits)
    with h1 show ?thesis by simp
  qed
qed

section \<open>The course of one Application resolution\<close>

lemma Application_unfold:
  "Application e disp app w =
     (case deref w app of
        None \<Rightarrow> (Panic, w)
      | Some a \<Rightarrow>
          (case spec_project (Object_spec a) of
             None \<Rightarrow> (Panic, snd (graph_Node a w))
           | Some projName \<Rightarrow>
               (case getAllObjects e (snd (graph_Node a w)) of
                  ((objs, Some err), w2) \<Rightarrow> (Return None (Some err), w2)
                | ((objs, None), w2) \<Rightarrow>
                    (case track_children disp (node_of a) projName app objs ([], []) w2 of
                       (Inl r, w3) \<Rightarrow> (r, w3)
                     | (Inr (children, namespaces), w3) \<Rightarrow>
                         (case namespace_closure w3 namespaces objs children of
                            None \<Rightarrow> (Panic, w3)
                          | Some children' \<Rightarrow>
                              resolve_children disp (node_of a) (Slice e children') w3)))))"
  by (simp add: Application_def graph_Node_def split: option.splits)

lemma Application_cases:
  assumes "deref w app = Some a" and "spec_project (Object_spec a) = Some projName"
  obtains
    (harvest_failed) objs err w2 where
      "getAllObjects e (snd (graph_Node a w)) = ((objs, Some err), w2)"
      "Application e disp app w = (Return None (Some err), w2)"
  | (early_return) objs w2 r w3 where
      "getAllObjects e (snd (graph_Node a w)) = ((objs, None), w2)"
      "track_children disp (node_of a) projName app objs ([], []) w2 = (Inl r, w3)"
      "Application e disp app w = (r, w3)"
  | (closure_panic) objs w2 children namespaces w3 where
      "getAllObjects e (snd (graph_Node a w)) = ((objs, None), w2)"
      "track_children disp (node_of a) projName app objs ([], []) w2 = (Inr (children, namespaces), w3)"
      "namespace_closure w3 namespaces objs children = None"
      "Application e disp app w = (Panic, w3)"
  | (resolved) objs w2 children namespaces w3 children' where
      "getAllObjects e (snd (graph_Node a w)) = ((objs, None), w2)"
      "track_children disp (node_of a) projName app objs ([], []) w2 = (Inr (children, namespaces), w3)"
      "namespace_closure w3 namespaces objs children = Some children'"
      "Application e disp app w = resolve_children disp (node_of a) (Slice e children') w3"
proof -
  obtain objs err w2 where g: "getAllObjects e (snd (graph_Node a w)) = ((objs, err), w2)"
    by (metis surj_pair)
  note n = Application_unfold [of e disp app w]
  show thesis
  proof (cases err)
    case (Some x)
    with g n assms have "Application e disp app w = (Return None (Some x), w2)"
      by simp
    with g Some harvest_failed show thesis by blast
  next
    case None
    obtain t w3 where t: "track_children disp (node_of a) projName app objs ([], []) w2 = (t, w3)"
      by (metis surj_pair)
    show thesis
    proof (cases t)
      case (Inl r)
      with g n assms None t have "Application e disp app w = (r, w3)"
        by simp
      with g None t Inl early_return show thesis by blast
    next
      case (Inr cn)
      obtain children namespaces where cn: "cn = (children, namespaces)" by (metis surj_pair)
      show thesis
      proof (cases "namespace_closure w3 namespaces objs children")
        case None': None
        with g n assms None t Inr cn have "Application e disp app w = (Panic, w3)"
          by simp
        with g None t Inr cn None' closure_panic show thesis by blast
      next
        case (Some children')
        with g n assms None t Inr cn
        have "Application e disp app w = resolve_children disp (node_of a) (Slice e children') w3"
          by simp
        with g None t Inr cn Some resolved show thesis by blast
      qed
    qed
  qed
qed

lemma Application_heap:
  assumes "heap_stable disp" and "Application e disp app w = (r, w')"
  shows "prefix (heap w) (heap w')"
proof (cases "deref w app")
  case None
  with assms(2) show ?thesis by (simp add: Application_unfold)
next
  case (Some a)
  have h1: "heap (snd (graph_Node a w)) = heap w" by simp
  show ?thesis
  proof (cases "spec_project (Object_spec a)")
    case None
    with assms(2) Some h1 show ?thesis
      by (auto simp: Application_unfold)
  next
    case (Some projName)
    from \<open>deref w app = Some a\<close> Some show ?thesis
    proof (cases rule: Application_cases [where e = e and disp = disp])
      case (harvest_failed objs err w2)
      with assms(2) getAllObjects_frame(1) [OF harvest_failed(1)] h1 show ?thesis by simp
    next
      case (early_return objs w2 r1 w3)
      with assms(2) getAllObjects_frame(1) [OF early_return(1)] h1
        track_children_heap [OF assms(1) early_return(2)]
      show ?thesis by (auto intro: prefix_order.trans)
    next
      case (closure_panic objs w2 children namespaces w3)
      with assms(2) getAllObjects_frame(1) [OF closure_panic(1)] h1
        track_children_heap [OF assms(1) closure_panic(2)]
      show ?thesis by (auto intro: prefix_order.trans)
    next
      case (resolved objs w2 children namespaces w3 children')
      from assms(2) resolved(4)
      have "resolve_children disp (node_of a) (Slice e children') w3 = (r, w')" by simp
      from resolve_children_heap [OF assms(1) this] getAllObjects_frame(1) [OF resolved(1)] h1
        track_children_heap [OF assms(1) resolved(2)]
      show ?thesis by (auto intro: prefix_order.trans)
    qed
  qed
qed

lemma owner_refs_heap:
  "heap_stable disp \<Longrightarrow> owner_refs disp n appset obj refs w = (r, w') \<Longrightarrow>
   prefix (heap w) (heap w')"
proof (induction refs arbitrary: w)
  case Nil
  then show ?case by simp
next
  case (Cons ownerRef refs)
  show ?case
  proof (cases "deref w appset")
    case None
    with Cons.prems show ?thesis by simp
  next
    case (Some s)
    show ?thesis
    proof (cases "ref_UID ownerRef = GetUID s")
      case False
      with Cons Some show ?thesis by simp
    next
      case True
      obtain r1 w1 where d: "disp obj w = (r1, w1)" by (metis surj_pair)
      note h1 = heap_stableD [OF Cons.prems(1) d]
      show ?thesis
      proof (cases "\<exists>cn o1. r1 = Return cn None \<and> deref w1 obj = Some o1")
        case True': True
        then obtain cn o1 where t: "r1 = Return cn None" "deref w1 obj = Some o1" by blast
        with Cons.prems(2) d Some True
        have "owner_refs disp n appset obj refs (Relationship n (GetKind o1) cn w1) = (r, w')"
          by simp
        from Cons.IH [OF Cons.prems(1) this] h1 show ?thesis
          by (auto intro: prefix_order.trans)
      next
        case False
        with Cons.prems(2) d Some True have "w' = w1"
          by (auto split: result.splits option.splits)
        with h1 show ?thesis by simp
      qed
    qed
  qed
qed

lemma owned_applications_heap:
  "heap_stable disp \<Longrightarrow> owned_applications disp n appset objs w = (r, w') \<Longrightarrow>
   prefix (heap w) (heap w')"
proof (induction objs arbitrary: w)
  case Nil
  then show ?case by simp
next
  case (Cons obj objs)
  show ?case
  proof (cases "deref w obj")
    case None
    with Cons.prems show ?thesis by simp
  next
    case (Some o')
    obtain r1 w1 where p: "owner_refs disp n appset obj (GetOwnerReferences o') w = (r1, w1)"
      by (metis surj_pair)
    note h1 = owner_refs_heap [OF Cons.prems(1) p]
    show ?thesis
    proof (cases r1)
      case None
      with Cons.prems(2) Some p have "owned_applications disp n appset objs w1 = (r, w')"
        by simp
      from Cons.IH [OF Cons.prems(1) this] h1 show ?thesis
        by (auto intro: prefix_order.trans)
    next
      case (Some x)
      with Cons.prems(2) \<open>deref w obj = Some o'\<close> p have "w' = w1" by simp
      with h1 show ?thesis by simp
    qed
  qed
qed

lemma ApplicationSet_heap:
  assumes "heap_stable disp" and "ApplicationSet e disp appset w = (r, w')"
  shows "prefix (heap w) (heap w')"
proof -
  obtain objs err w1 where g: "getChildApplications e w = ((objs, err), w1)"
    by (metis surj_pair)
  note h1 = getChildApplications_frame(1) [OF g]
  show ?thesis
  proof (cases "err = None \<and> deref w1 appset \<noteq> None")
    case True
    then obtain s where s: "deref w1 appset = Some s" by auto
    with assms(2) g True
    have "owned_applications disp (node_of s) appset objs (snd (graph_Node s w1)) = (r, w')"
      by (simp add: ApplicationSet_def graph_Node_def)
    from owned_applications_heap [OF assms(1) this] h1 show ?thesis
      by (auto intro: prefix_order.trans)
  next
    case False
    with assms(2) g have "w' = w1"
      by (auto simp: ApplicationSet_def split: option.splits)
    with h1 show ?thesis by simp
  qed
qed

lemma AppProject_heap: "AppProject obj w = (r, w') \<Longrightarrow> heap w' = heap w"
  by (auto simp: AppProject_def graph_Node_def split: option.splits)

lemma AppProject_edges: "AppProject obj w = (r, w') \<Longrightarrow> edges w' = edges w"
  by (auto simp: AppProject_def graph_Node_def split: option.splits)

lemma heap_stable_AppProject: "heap_stable AppProject"
  unfolding heap_stable_def by (metis AppProject_heap prefix_order.refl prod.collapse)

lemma edges_kept_AppProject: "edges_kept AppProject"
  unfolding edges_kept_def by (metis AppProject_edges order_refl prod.collapse)

lemma no_edges_from_AppProject: "no_edges_from n AppProject"
  unfolding no_edges_from_def by (metis AppProject_edges prod.collapse)

lemma Unstructured_dispatch_heap:
  assumes "heap_stable disp" and "Unstructured_dispatch e disp unstr w = (r, w')"
  shows "prefix (heap w) (heap w')"
  using assms(2) Application_heap [OF assms(1)] ApplicationSet_heap [OF assms(1)] AppProject_heap
  by (auto simp: Unstructured_dispatch_def graph_Node_def split: option.splits if_splits)

lemma Application_harvest_heap:
  assumes "heap_stable disp" and "deref w app = Some a"
    and "spec_project (Object_spec a) = Some projName"
    and "getAllObjects e (snd (graph_Node a w)) = (r2, w2)"
    and "Application e disp app w = (r, w')"
  shows "prefix (heap w2) (heap w')"
  using assms(2,3)
proof (cases rule: Application_cases [where e = e and disp = disp])
  case (harvest_failed objs err w2')
  with assms(4,5) show ?thesis by simp
next
  case (early_return objs w2' r1 w3)
  with assms(4,5) track_children_heap [OF assms(1) early_return(2)] show ?thesis by simp
next
  case (closure_panic objs w2' children namespaces w3)
  with assms(4,5) track_children_heap [OF assms(1) closure_panic(2)] show ?thesis by simp
next
  case (resolved objs w2' children namespaces w3 children')
  from assms(5) resolved(4)
  have "resolve_children disp (node_of a) (Slice e children') w3 = (r, w')" by simp
  from resolve_children_heap [OF assms(1) this] track_children_heap [OF assms(1) resolved(2)]
    resolved(1) assms(4)
  show ?thesis by (auto intro: prefix_order.trans)
qed

lemma ApplicationSet_harvest_heap:
  assumes "heap_stable disp" and "getChildApplications e w = (r1, w1)"
    and "ApplicationSet e disp appset w = (r, w')"
  shows "prefix (heap w1) (heap w')"
proof -
  obtain objs err where g: "getChildApplications e w = ((objs, err), w1)"
    using assms(2) by (metis surj_pair)
  show ?thesis
  proof (cases "err = None \<and> deref w1 appset \<noteq> None")
    case True
    then obtain s where s: "deref w1 appset = Some s" by auto
    with assms(3) g True
    have "owned_applications disp (node_of s) appset objs (snd (graph_Node s w1)) = (r, w')"
      by (simp add: ApplicationSet_def graph_Node_def)
    from owned_applications_heap [OF assms(1) this] show ?thesis by simp
  next
    case False
    with assms(3) g have "w' = w1"
      by (auto simp: ApplicationSet_def split: option.splits)
    then show ?thesis by simp
  qed
qed

text \<open>
  C9: no resolver writes to an object. Whatever can be read through a pointer before a
  resolution (the root, and every object of an earlier harvest) reads the same after it,
  and so does every object harvested during the resolution, provided the graph-wide
  dispatcher, which the sources do not include, behaves so too.
\<close>

theorem objects_never_mutated:
  assumes "heap_stable disp"
  shows "(\<forall>a u. deref w a = Some u \<longrightarrow>
            deref (snd (Unstructured_dispatch e disp root w)) a = Some u \<and>
            deref (snd (Application e disp root w)) a = Some u \<and>
            deref (snd (ApplicationSet e disp root w)) a = Some u \<and>
            deref (snd (AppProject root w)) a = Some u) \<and>
         (\<forall>app projName a u.
            deref w root = Some app \<and> spec_project (Object_spec app) = Some projName \<and>
            deref (snd (getAllObjects e (snd (graph_Node app w)))) a = Some u \<longrightarrow>
            deref (snd (Application e disp root w)) a = Some u) \<and>
         (\<forall>a u. deref (snd (getChildApplications e w)) a = Some u \<longrightarrow>
            deref (snd (ApplicationSet e disp root w)) a = Some u)"
proof -
  have 1: "prefix (heap w) (heap (snd (Unstructured_dispatch e disp root w)))"
    by (rule Unstructured_dispatch_heap [OF assms(1)]) (rule prod.collapse [symmetric])
  have 2: "prefix (heap w) (heap (snd (Application e disp root w)))"
    by (rule Application_heap [OF assms(1)]) (rule prod.collapse [symmetric])
  have 3: "prefix (heap w) (heap (snd (ApplicationSet e disp root w)))"
    by (rule ApplicationSet_heap [OF assms(1)]) (rule prod.collapse [symmetric])
  have 4: "prefix (heap w) (heap (snd (AppProject root w)))"
    using AppProject_heap [of root w] by (metis prefix_order.refl prod.collapse)
  have 5: "prefix (heap (snd (getAllObjects e (snd (graph_Node app w)))))
             (heap (snd (Application e disp root w)))"
    if "deref w root = Some app" "spec_project (Object_spec app) = Some projName"
    for app projName
    by (rule Application_harvest_heap [OF assms(1) that]) (rule prod.collapse [symmetric])+
  have 6: "prefix (heap (snd (getChildApplications e w)))
             (heap (snd (ApplicationSet e disp root w)))"
    by (rule ApplicationSet_harvest_heap [OF assms(1)]) (rule prod.collapse [symmetric])+
  from 1 2 3 4 have "\<forall>a u. deref w a = Some u \<longrightarrow>
            deref (snd (Unstructured_dispatch e disp root w)) a = Some u \<and>
            deref (snd (Application e disp root w)) a = Some u \<and>
            deref (snd (ApplicationSet e disp root w)) a = Some u \<and>
            deref (snd (AppProject root w)) a = Some u"
    by (blast intro: deref_prefix)
  moreover from 5 have "\<forall>app projName a u.
            deref w root = Some app \<and> spec_project (Object_spec app) = Some projName \<and>
            deref (snd (getAllObjects e (snd (graph_Node app w)))) a = Some u \<longrightarrow>
            deref (snd (Application e disp root w)) a = Some u"
    by (blast intro: deref_prefix)
  moreover from 6 have "\<forall>a u. deref (snd (getChildApplications e w)) a = Some u \<longrightarrow>
            deref (snd (ApplicationSet e disp root w)) a = Some u"
    by (blast intro: deref_prefix)
  ultimately show ?thesis by blast
qed

theorem objects_never_mutated_witness:
  "heap_stable AppProject \<and> deref world1 0 = Some app1 \<and>
   deref (snd (Unstructured_dispatch cluster1 AppProject 0 world1)) 0 = Some app1 \<and>
   deref (snd (Application cluster1 AppProject 0 world1)) 0 = Some app1"
proof -
  have d: "deref world1 0 = Some app1" by (simp add: deref_def world1_def)
  show ?thesis
    using heap_stable_AppProject d
      objects_never_mutated [OF heap_stable_AppProject, of world1 cluster1 0]
    by blast
qed

section \<open>What the three loops of Application compute\<close>

lemma track_children_sets:
  "heap_stable disp \<Longrightarrow> deref w' app = Some a \<Longrightarrow>
   track_children disp n projName app objs cn w = (Inr cn', w') \<Longrightarrow>
   set (fst cn') = set (fst cn) \<union>
     {obj \<in> set objs. \<exists>u. deref w' obj = Some u \<and>
        (tracked_by_annotation u (GetName a) \<or> tracked_by_label u (GetName a))} \<and>
   set (snd cn') = set (snd cn) \<union>
     {ns. ns \<noteq> [] \<and> (\<exists>obj \<in> set objs. \<exists>u. deref w' obj = Some u \<and> GetNamespace u = ns \<and>
        (tracked_by_annotation u (GetName a) \<or> tracked_by_label u (GetName a)))} \<and>
   (\<forall>obj \<in> set objs. deref w' obj \<noteq> None)"
proof (induction objs arbitrary: cn w)
  case Nil
  then show ?case by simp
next
  case (Cons obj objs)
  from Cons.prems(3) obtain o' w1 o1 a1 where
    d: "deref w obj = Some o'" and p: "project_edge disp n projName obj o' w = (None, w1)"
    and d1: "deref w1 obj = Some o1" and da: "deref w1 app = Some a1"
    and step: "track_children disp n projName app objs (track_signals obj o1 (GetName a1) cn) w1
                 = (Inr cn', w')"
    by (rule track_children_Cons_Inr)
  have pre: "prefix (heap w1) (heap w')"
    by (rule track_children_heap [OF Cons.prems(1) step])
  have o1: "deref w' obj = Some o1" by (rule deref_prefix [OF pre d1])
  have a1: "a1 = a" using deref_prefix [OF pre da] Cons.prems(2) by simp
  note IH = Cons.IH [OF Cons.prems(1,2) step [unfolded a1]]
  let ?t = "tracked_by_annotation o1 (GetName a) \<or> tracked_by_label o1 (GetName a)"
  have c: "set (fst (track_signals obj o1 (GetName a) cn)) =
             (if ?t then insert obj (set (fst cn)) else set (fst cn))"
    by (rule track_signals_children)
  have ns: "set (snd (track_signals obj o1 (GetName a) cn)) =
             (if ?t \<and> GetNamespace o1 \<noteq> [] then insert (GetNamespace o1) (set (snd cn))
              else set (snd cn))"
    by (rule track_signals_namespaces)
  have 1: "set (fst cn') = set (fst cn) \<union>
     {x \<in> set (obj # objs). \<exists>u. deref w' x = Some u \<and>
        (tracked_by_annotation u (GetName a) \<or> tracked_by_label u (GetName a))}"
    using IH c o1 by auto
  have 2: "set (snd cn') = set (snd cn) \<union>
     {ns. ns \<noteq> [] \<and> (\<exists>x \<in> set (obj # objs). \<exists>u. deref w' x = Some u \<and> GetNamespace u = ns \<and>
        (tracked_by_annotation u (GetName a) \<or> tracked_by_label u (GetName a)))}"
    using IH ns o1 by auto
  have 3: "\<forall>x \<in> set (obj # objs). deref w' x \<noteq> None"
    using IH o1 by auto
  from 1 2 3 show ?case by blast
qed

lemma namespace_closure_set:
  "namespace_closure w namespaces objs children = Some children' \<Longrightarrow>
   set children' = set children \<union>
     {obj \<in> set objs. \<exists>u. deref w obj = Some u \<and> GetNamespace u \<in> set namespaces}"
proof (induction objs arbitrary: children)
  case Nil
  then show ?case by simp
next
  case (Cons x objs)
  then obtain u where u: "deref w x = Some u"
    and step: "namespace_closure w namespaces objs
                 (if Contains namespaces (GetNamespace u) then Insert x children else children)
               = Some children'"
    by (auto split: option.splits)
  from Cons.IH [OF step] u show ?case
    by (auto simp: Contains_def)
qed

lemma resolve_children_edge:
  "heap_stable disp \<Longrightarrow> edges_kept disp \<Longrightarrow>
   resolve_children disp n cs w = (Return nd None, w') \<Longrightarrow>
   c \<in> set cs \<Longrightarrow> deref w c = Some u \<Longrightarrow>
   \<exists>childNode w1. fst (disp c w1) = Return childNode None \<and>
      (n, GetKind u, childNode) \<in> set (edges w')"
proof (induction cs arbitrary: w)
  case Nil
  then show ?case by simp
next
  case (Cons x cs)
  obtain r1 w1 where d: "disp x w = (r1, w1)" by (metis surj_pair)
  with Cons.prems(3) obtain childNode o1 where
    r1: "r1 = Return childNode None" and o1: "deref w1 x = Some o1"
    and step: "resolve_children disp n cs (Relationship n (GetKind o1) childNode w1)
                 = (Return nd None, w')"
    by (auto split: result.splits option.splits)
  have pre: "prefix (heap w) (heap w1)" by (rule heap_stableD [OF Cons.prems(1) d])
  show ?case
  proof (cases "c = x")
    case True
    have "o1 = u" using deref_prefix [OF pre Cons.prems(5)] o1 True by simp
    moreover have "(n, GetKind o1, childNode) \<in> set (edges w')"
      using resolve_children_edges [OF Cons.prems(2) step] by auto
    moreover have "fst (disp c w) = Return childNode None"
      using d r1 True by simp
    ultimately show ?thesis by blast
  next
    case False
    with Cons.prems(4) have "c \<in> set cs" by simp
    moreover have "deref (Relationship n (GetKind o1) childNode w1) c = Some u"
      using deref_prefix [OF pre Cons.prems(5)] by simp
    ultimately show ?thesis
      using Cons.IH [OF Cons.prems(1,2) step] by blast
  qed
qed


lemma track_children_early_return:
  "track_children disp n projName app objs cn w = (Inl (Return nd err), w') \<Longrightarrow>
   nd = Some n \<and> (\<exists>e'. err = Some e' \<and> (\<exists>c w1 childNode. fst (disp c w1) = Return childNode (Some e')))"
proof (induction objs arbitrary: cn w)
  case Nil
  then show ?case by simp
next
  case (Cons obj objs)
  show ?case
  proof (cases "deref w obj")
    case None
    with Cons.prems show ?thesis by simp
  next
    case (Some o')
    obtain r1 w1 where p: "project_edge disp n projName obj o' w = (r1, w1)"
      by (metis surj_pair)
    show ?thesis
    proof (cases r1)
      case None
      with Cons.prems Some p obtain o1 and a1 :: Unstructured where
        "track_children disp n projName app objs (track_signals obj o1 (GetName a1) cn) w1
           = (Inl (Return nd err), w')"
        by (auto split: option.splits)
      from Cons.IH [OF this] show ?thesis .
    next
      case (Some r)
      with Cons.prems \<open>deref w obj = Some o'\<close> p have r: "r = Return nd err" by simp
      obtain r2 w2 where d: "disp obj w = (r2, w2)" by (metis surj_pair)
      from p Some r d show ?thesis
        by (auto simp: project_edge_def split: if_splits result.splits option.splits)
           (metis d fst_conv)
    qed
  qed
qed


lemma Application_success:
  assumes hs: "heap_stable disp" and app: "deref w app = Some a"
    and ok: "Application e disp app w = (Return nd None, w')"
    and universe: "getAllObjects e (snd (graph_Node a w)) = ((objs, err), w2)"
  obtains projName children namespaces w3 children' where
    "spec_project (Object_spec a) = Some projName" "err = None"
    "track_children disp (node_of a) projName app objs ([], []) w2 = (Inr (children, namespaces), w3)"
    "namespace_closure w3 namespaces objs children = Some children'"
    "resolve_children disp (node_of a) (Slice e children') w3 = (Return nd None, w')"
    "deref w2 app = Some a" "deref w3 app = Some a" "prefix (heap w2) (heap w3)"
proof -
  obtain projName where spec: "spec_project (Object_spec a) = Some projName"
    using ok app by (cases "spec_project (Object_spec a)") (auto simp: Application_unfold)
  have a2: "deref w2 app = Some a"
    using deref_prefix [OF getAllObjects_frame(1) [OF universe]] app by simp
  from app spec show thesis
  proof (cases rule: Application_cases [where e = e and disp = disp])
    case (harvest_failed objs' err' w2')
    with ok show ?thesis by simp
  next
    case (early_return objs' w2' r w3)
    with ok have "track_children disp (node_of a) projName app objs' ([], []) w2' = (Inl (Return nd None), w')"
      by simp
    from track_children_early_return [OF this] show ?thesis by simp
  next
    case (closure_panic objs' w2' children namespaces w3)
    with ok show ?thesis by simp
  next
    case (resolved objs' w2' children namespaces w3 children')
    with universe have eq: "objs' = objs" "err = None" "w2' = w2" by simp_all
    have pre: "prefix (heap w2) (heap w3)"
      using track_children_heap [OF hs resolved(2)] eq by simp
    have "resolve_children disp (node_of a) (Slice e children') w3 = (Return nd None, w')"
      using resolved(4) ok by simp
    with that [OF spec eq(2) resolved(2) [unfolded eq] resolved(3) [unfolded eq] _ a2
               deref_prefix [OF pre a2] pre]
    show ?thesis by blast
  qed
qed

lemma Application_children:
  assumes hs: "heap_stable disp" and ek: "edges_kept disp" and app: "deref w app = Some a"
    and ok: "Application e disp app w = (Return nd None, w')"
    and universe: "getAllObjects e (snd (graph_Node a w)) = ((objs, err), w2)"
    and obj: "obj \<in> set objs" "deref w2 obj = Some u"
    and child: "tracked_by_annotation u (GetName a) \<or> tracked_by_label u (GetName a) \<or>
      (GetNamespace u \<noteq> [] \<and> (\<exists>m \<in> set objs. \<exists>mu. deref w2 m = Some mu \<and>
          GetNamespace mu = GetNamespace u \<and>
          (tracked_by_annotation mu (GetName a) \<or> tracked_by_label mu (GetName a))))"
  shows "\<exists>childNode w1. fst (disp obj w1) = Return childNode None \<and>
           (node_of a, GetKind u, childNode) \<in> set (edges w')"
  using hs app ok universe
proof (cases rule: Application_success)
  case (1 projName children namespaces w3 children')
  have u3: "deref w3 x = Some v" if "deref w2 x = Some v" for x v
    using deref_prefix [OF 1(8) that] .
  note sets = track_children_sets [OF hs 1(7) 1(3)]
  have "obj \<in> set children'"
  proof (cases "tracked_by_annotation u (GetName a) \<or> tracked_by_label u (GetName a)")
    case True
    with sets obj u3 have "obj \<in> set children" by auto
    then show ?thesis using namespace_closure_set [OF 1(4)] by simp
  next
    case False
    with child obtain m mu where m: "m \<in> set objs" "deref w2 m = Some mu"
      "GetNamespace mu = GetNamespace u" "GetNamespace u \<noteq> []"
      "tracked_by_annotation mu (GetName a) \<or> tracked_by_label mu (GetName a)"
      by blast
    from m u3 have "deref w3 m = Some mu" by simp
    with sets m have "GetNamespace u \<in> set namespaces" by auto
    with obj u3 show ?thesis using namespace_closure_set [OF 1(4)] by auto
  qed
  then have "obj \<in> set (Slice e children')" by simp
  from resolve_children_edge [OF hs ek 1(5) this u3 [OF obj(2)]] show ?thesis .
qed

section \<open>Edges to the tracked children\<close>

text \<open>
  C2: let the universe harvested for the Application at \<open>app\<close> hold an object whose
  tracking-id annotation starts with the Application's name followed by a colon. When
  the resolution returns without error, the graph has an edge from the Application's
  node to the node the dispatcher returned for that object, labeled with the object's
  kind.
\<close>

theorem tracking_annotation_gives_edge:
  assumes "heap_stable disp" and "edges_kept disp"
    and "deref w app = Some a"
    and "getAllObjects e (snd (graph_Node a w)) = ((objs, err), w2)"
    and "obj \<in> set objs" and "deref w2 obj = Some u"
    and "map_of (GetAnnotations u) ''argocd.argoproj.io/tracking-id'' = Some trackingID"
    and "HasPrefix trackingID (GetName a @ '':'')"
    and "Application e disp app w = (Return nd None, w')"
  shows "\<exists>childNode w1. fst (disp obj w1) = Return childNode None \<and>
           (node_of a, GetKind u, childNode) \<in> set (edges w')"
proof -
  have "tracked_by_annotation u (GetName a)"
    using assms(7,8) by (simp add: tracked_by_annotation_def)
  then show ?thesis
    using Application_children [OF assms(1,2,3,9,4,5,6)] by blast
qed

theorem tracking_annotation_gives_edge_witness:
  "heap_stable AppProject \<and> edges_kept AppProject \<and> deref world1 0 = Some app1 \<and>
   fst (getAllObjects cluster2 (snd (graph_Node app1 world1))) = ([1], None) \<and>
   deref (snd (getAllObjects cluster2 (snd (graph_Node app1 world1)))) 1 = Some dep1 \<and>
   map_of (GetAnnotations dep1) ''argocd.argoproj.io/tracking-id''
     = Some ''app1:apps/Deployment:ns1/dep1'' \<and>
   HasPrefix ''app1:apps/Deployment:ns1/dep1'' (GetName app1 @ '':'') \<and>
   fst (Application cluster2 AppProject 0 world1) = Return (Some (node_of app1)) None \<and>
   (\<exists>childNode w1. fst (AppProject 1 w1) = Return childNode None \<and>
      (node_of app1, GetKind dep1, childNode)
        \<in> set (edges (snd (Application cluster2 AppProject 0 world1))))"
proof -
  have 3: "deref world1 0 = Some app1" by (simp add: deref_def world1_def)
  have 4: "getAllObjects cluster2 (snd (graph_Node app1 world1))
             = (([1], None), snd (getAllObjects cluster2 (snd (graph_Node app1 world1))))"
    by (simp add: cluster_defs engine_defs)
  have 5: "(1::nat) \<in> set [1]" by simp
  have 6: "deref (snd (getAllObjects cluster2 (snd (graph_Node app1 world1)))) 1 = Some dep1"
    by (simp add: cluster_defs engine_defs)
  have 7: "map_of (GetAnnotations dep1) ''argocd.argoproj.io/tracking-id''
             = Some ''app1:apps/Deployment:ns1/dep1''"
    by (simp add: dep1_def object_def)
  have 8: "HasPrefix ''app1:apps/Deployment:ns1/dep1'' (GetName app1 @ '':'')"
    by (simp add: HasPrefix_def app1_def object_def)
  have 9: "Application cluster2 AppProject 0 world1
             = (Return (Some (node_of app1)) None, snd (Application cluster2 AppProject 0 world1))"
    by (simp add: cluster_defs engine_defs)
  have g: "fst (getAllObjects cluster2 (snd (graph_Node app1 world1))) = ([1], None)"
    using 4 by (metis fst_conv)
  have r: "fst (Application cluster2 AppProject 0 world1) = Return (Some (node_of app1)) None"
    using 9 by (metis fst_conv)
  from tracking_annotation_gives_edge
         [OF heap_stable_AppProject edges_kept_AppProject 3 4 5 6 7 8 9]
  show ?thesis
    using heap_stable_AppProject edges_kept_AppProject 3 g 6 7 8 r by blast
qed

section \<open>Edges to the neighbours of the tracked children\<close>




section \<open>Projects\<close>

lemma track_children_project_edge:
  "heap_stable disp \<Longrightarrow> edges_kept disp \<Longrightarrow>
   track_children disp n projName app objs cn w = (Inr cn', w') \<Longrightarrow>
   obj \<in> set objs \<Longrightarrow> deref w obj = Some u \<Longrightarrow> is_project u projName \<Longrightarrow>
   \<exists>childNode w1. fst (disp obj w1) = Return childNode None \<and>
      (n, GetKind u, childNode) \<in> set (edges w')"
proof (induction objs arbitrary: cn w)
  case Nil
  then show ?case by simp
next
  case (Cons x objs)
  from Cons.prems(3) obtain o' w1 o1 and a1 :: Unstructured where
    d: "deref w x = Some o'" and p: "project_edge disp n projName x o' w = (None, w1)"
    and step: "track_children disp n projName app objs (track_signals x o1 (GetName a1) cn) w1
                 = (Inr cn', w')"
    by (rule track_children_Cons_Inr)
  have pre: "prefix (heap w) (heap w1)"
    by (rule project_edge_heap [OF Cons.prems(1) p])
  show ?case
  proof (cases "obj = x")
    case True
    with d Cons.prems(5) have o': "o' = u" by simp
    obtain r0 w0 where d0: "disp x w = (r0, w0)" by (metis surj_pair)
    from p o' Cons.prems(6) d0 obtain childNode o2 where
      r0: "r0 = Return childNode None" and o2: "deref w0 x = Some o2"
      and w1: "w1 = Relationship n (GetKind o2) childNode w0"
      by (auto simp: project_edge_def split: result.splits option.splits)
    have "prefix (heap w) (heap w0)" by (rule heap_stableD [OF Cons.prems(1) d0])
    from deref_prefix [OF this d] o2 o' have "o2 = u" by simp
    with w1 have "(n, GetKind u, childNode) \<in> set (edges w1)" by simp
    with track_children_edges [OF Cons.prems(2) step]
    have "(n, GetKind u, childNode) \<in> set (edges w')" by blast
    moreover have "fst (disp obj w) = Return childNode None"
      using d0 r0 True by simp
    ultimately show ?thesis by blast
  next
    case False
    with Cons.prems(4) have "obj \<in> set objs" by simp
    moreover have "deref w1 obj = Some u" by (rule deref_prefix [OF pre Cons.prems(5)])
    ultimately show ?thesis
      using Cons.IH [OF Cons.prems(1,2) step _ _ Cons.prems(6)] by blast
  qed
qed

text \<open>
  C7, as the code has it. Let the universe hold an AppProject of \<open>argoproj.io/v1alpha1\<close>
  and let the resolution return without error. If the project's name equals
  \<open>spec.project\<close>, the first loop links it to the Application's node at once, with its
  kind \<open>AppProject\<close> as the label. The tests for the tracking-id annotation and for the
  instance label, and the namespace closure, do not look at the kind: a project that
  passes one of them is among the children like any other object.
\<close>

theorem project_linked_directly_and_as_child:
  assumes "heap_stable disp" and "edges_kept disp"
    and "deref w app = Some a"
    and "getAllObjects e (snd (graph_Node a w)) = ((objs, err), w2)"
    and "obj \<in> set objs" and "deref w2 obj = Some u"
    and "GetKind u = ''AppProject''" and "GetAPIVersion u = ''argoproj.io/v1alpha1''"
    and "Application e disp app w = (Return nd None, w')"
  shows "(spec_project (Object_spec a) = Some (GetName u) \<longrightarrow>
           (\<exists>childNode w1. fst (disp obj w1) = Return childNode None \<and>
              (node_of a, ''AppProject'', childNode) \<in> set (edges w'))) \<and>
         (tracked_by_annotation u (GetName a) \<or> tracked_by_label u (GetName a) \<or>
            (GetNamespace u \<noteq> [] \<and> (\<exists>m \<in> set objs. \<exists>mu. deref w2 m = Some mu \<and>
                GetNamespace mu = GetNamespace u \<and>
                (tracked_by_annotation mu (GetName a) \<or> tracked_by_label mu (GetName a)))) \<longrightarrow>
           (\<exists>projName children namespaces w3 children'.
              track_children disp (node_of a) projName app objs ([], []) w2
                = (Inr (children, namespaces), w3) \<and>
              namespace_closure w3 namespaces objs children = Some children' \<and>
              obj \<in> set children'))"
  using assms(1,3,9,4)
proof (cases rule: Application_success)
  case (1 projName children namespaces w3 children')
  have u3: "deref w3 x = Some v" if "deref w2 x = Some v" for x v
    using deref_prefix [OF 1(8) that] .
  note sets = track_children_sets [OF assms(1) 1(7) 1(3)]
  have direct: "\<exists>childNode w1. fst (disp obj w1) = Return childNode None \<and>
              (node_of a, ''AppProject'', childNode) \<in> set (edges w')"
    if "spec_project (Object_spec a) = Some (GetName u)"
  proof -
    from that 1(1) have "is_project u projName"
      using assms(7,8) by (simp add: is_project_def)
    from track_children_project_edge [OF assms(1,2) 1(3) assms(5,6) this]
    obtain childNode w1 where "fst (disp obj w1) = Return childNode None"
      "(node_of a, GetKind u, childNode) \<in> set (edges w3)" by blast
    with resolve_children_edges [OF assms(2) 1(5)] assms(7) show ?thesis by auto
  qed
  have child: "obj \<in> set children'"
    if t: "tracked_by_annotation u (GetName a) \<or> tracked_by_label u (GetName a) \<or>
            (GetNamespace u \<noteq> [] \<and> (\<exists>m \<in> set objs. \<exists>mu. deref w2 m = Some mu \<and>
                GetNamespace mu = GetNamespace u \<and>
                (tracked_by_annotation mu (GetName a) \<or> tracked_by_label mu (GetName a))))"
  proof (cases "tracked_by_annotation u (GetName a) \<or> tracked_by_label u (GetName a)")
    case True
    with sets assms(5,6) u3 have "obj \<in> set children" by auto
    then show ?thesis using namespace_closure_set [OF 1(4)] by simp
  next
    case False
    with t obtain m mu where m: "m \<in> set objs" "deref w2 m = Some mu"
      "GetNamespace mu = GetNamespace u" "GetNamespace u \<noteq> []"
      "tracked_by_annotation mu (GetName a) \<or> tracked_by_label mu (GetName a)"
      by blast
    from m u3 have "deref w3 m = Some mu" by simp
    with sets m have "GetNamespace u \<in> set namespaces" by auto
    with assms(5,6) u3 show ?thesis using namespace_closure_set [OF 1(4)] by auto
  qed
  from direct child 1(3,4) show ?thesis by blast
qed

theorem project_linked_directly_and_as_child_witness:
  "heap_stable AppProject \<and> edges_kept AppProject \<and> deref world1 0 = Some app1 \<and>
   fst (getAllObjects cluster1 (snd (graph_Node app1 world1))) = ([1, 2, 3], None) \<and>
   deref (snd (getAllObjects cluster1 (snd (graph_Node app1 world1)))) 3 = Some proj1 \<and>
   GetKind proj1 = ''AppProject'' \<and> GetAPIVersion proj1 = ''argoproj.io/v1alpha1'' \<and>
   spec_project (Object_spec app1) = Some (GetName proj1) \<and>
   fst (Application cluster1 AppProject 0 world1) = Return (Some (node_of app1)) None \<and>
   (\<exists>childNode w1. fst (AppProject 3 w1) = Return childNode None \<and>
      (node_of app1, ''AppProject'', childNode)
        \<in> set (edges (snd (Application cluster1 AppProject 0 world1))))"
proof -
  have 3: "deref world1 0 = Some app1" by (simp add: deref_def world1_def)
  have 4: "getAllObjects cluster1 (snd (graph_Node app1 world1))
             = (([1, 2, 3], None), snd (getAllObjects cluster1 (snd (graph_Node app1 world1))))"
    by (simp add: cluster_defs engine_defs)
  have 5: "(3::nat) \<in> set [1, 2, 3]" by simp
  have 6: "deref (snd (getAllObjects cluster1 (snd (graph_Node app1 world1)))) 3 = Some proj1"
    by (simp add: cluster_defs engine_defs)
  have 7: "GetKind proj1 = ''AppProject''" by (simp add: proj1_def object_def)
  have 8: "GetAPIVersion proj1 = ''argoproj.io/v1alpha1''" by (simp add: proj1_def object_def)
  have 9: "Application cluster1 AppProject 0 world1
             = (Return (Some (node_of app1)) None, snd (Application cluster1 AppProject 0 world1))"
    by (simp add: cluster_defs engine_defs)
  have s: "spec_project (Object_spec app1) = Some (GetName proj1)"
    by (simp add: spec_project_def app1_def proj1_def object_def)
  have g: "fst (getAllObjects cluster1 (snd (graph_Node app1 world1))) = ([1, 2, 3], None)"
    using 4 by (metis fst_conv)
  have r: "fst (Application cluster1 AppProject 0 world1) = Return (Some (node_of app1)) None"
    using 9 by (metis fst_conv)
  from project_linked_directly_and_as_child
         [OF heap_stable_AppProject edges_kept_AppProject 3 4 5 6 7 8 9] s
  have "\<exists>childNode w1. fst (AppProject 3 w1) = Return childNode None \<and>
      (node_of app1, ''AppProject'', childNode)
        \<in> set (edges (snd (Application cluster1 AppProject 0 world1)))"
    by blast
  then show ?thesis
    using heap_stable_AppProject edges_kept_AppProject 3 g 6 7 8 s r by blast
qed

text \<open>
  C7 as stated fails: \<open>proj2\<close> is not the project of \<open>app1\<close>, but it carries the instance
  label, so the first loop puts it among the children and it gets an edge.
\<close>

theorem project_tracked_by_label_counterexample:
  "spec_project (Object_spec app1) = Some ''proj1'' \<and> GetName proj2 = ''proj2'' \<and>
   GetKind proj2 = ''AppProject'' \<and> GetAPIVersion proj2 = ''argoproj.io/v1alpha1'' \<and>
   fst (getAllObjects cluster4 (snd (graph_Node app1 world1))) = ([1], None) \<and>
   deref (snd (getAllObjects cluster4 (snd (graph_Node app1 world1)))) 1 = Some proj2 \<and>
   fst (track_children AppProject (node_of app1) ''proj1'' 0 [1] ([], [])
          (snd (getAllObjects cluster4 (snd (graph_Node app1 world1)))))
     = Inr ([1], [''argocd'']) \<and>
   edges (snd (Application cluster4 AppProject 0 world1))
     = [(node_of app1, ''AppProject'', Some (node_of proj2))]"
  by (simp add: cluster_defs engine_defs)

section \<open>Failures\<close>



lemma getAllObjects_no_error:
  "ServerPreferredResources e = Inr ls \<Longrightarrow> snd (fst (getAllObjects e w)) = None"
  by (simp add: getAllObjects_def split: prod.splits)


section \<open>Failed list calls\<close>



lemma range_map_absorb [simp]: "range_map (absorb_list_failures e) = range_map e"
  by (rule ext) (simp add: range_map_def absorb_list_failures_def)



lemma ServerPreferredResources_absorb [simp]:
  "ServerPreferredResources (absorb_list_failures e) = ServerPreferredResources e"
  by (simp add: absorb_list_failures_def)





section \<open>ApplicationSets\<close>

lemma no_edges_fromD:
  "no_edges_from n disp \<Longrightarrow> disp a w = (r, w1) \<Longrightarrow> ed \<in> set (edges w1) \<Longrightarrow> fst ed = n \<Longrightarrow>
   ed \<in> set (edges w)"
  unfolding no_edges_from_def by (metis snd_conv)

lemma no_edges_from_onD:
  "no_edges_from_on n disp objs w0 \<Longrightarrow> obj \<in> set objs \<Longrightarrow> prefix (heap w0) (heap w) \<Longrightarrow>
   disp obj w = (r, w1) \<Longrightarrow> ed \<in> set (edges w1) \<Longrightarrow> fst ed = n \<Longrightarrow> ed \<in> set (edges w)"
  unfolding no_edges_from_on_def by (metis snd_conv)

lemma owner_refs_Cons_match:
  assumes "owner_refs disp n appset obj (ownerRef # rest) w = (r, w')"
    and "deref w appset = Some s" and "ref_UID ownerRef = GetUID s"
  obtains (stop) r1 w1 where "disp obj w = (r1, w1)" "w' = w1" "r \<noteq> None"
  | (continue) childNode w1 o1 where "disp obj w = (Return childNode None, w1)"
      "deref w1 obj = Some o1"
      "owner_refs disp n appset obj rest (Relationship n (GetKind o1) childNode w1) = (r, w')"
proof -
  obtain r1 w1 where d: "disp obj w = (r1, w1)" by (metis surj_pair)
  show thesis
  proof (cases "\<exists>childNode o1. r1 = Return childNode None \<and> deref w1 obj = Some o1")
    case True
    then obtain childNode o1 where "r1 = Return childNode None" "deref w1 obj = Some o1" by blast
    with assms d continue show thesis by simp
  next
    case False
    with assms d have "w' = w1 \<and> r \<noteq> None"
      by (auto split: result.splits option.splits)
    with d stop show thesis by blast
  qed
qed

lemma owner_refs_kept:
  "edges_kept disp \<Longrightarrow> owner_refs disp n appset obj refs w = (r, w') \<Longrightarrow>
   set (edges w) \<subseteq> set (edges w')"
proof (induction refs arbitrary: w)
  case Nil
  then show ?case by simp
next
  case (Cons ownerRef refs)
  show ?case
  proof (cases "deref w appset")
    case None
    with Cons.prems show ?thesis by simp
  next
    case (Some s)
    show ?thesis
    proof (cases "ref_UID ownerRef = GetUID s")
      case False
      with Cons Some show ?thesis by simp
    next
      case True
      from Cons.prems(2) Some True show ?thesis
      proof (cases rule: owner_refs_Cons_match)
        case (stop r1 w1)
        with edges_keptD [OF Cons.prems(1) stop(1)] show ?thesis by simp
      next
        case (continue childNode w1 o1)
        from Cons.IH [OF Cons.prems(1) continue(3)] edges_keptD [OF Cons.prems(1) continue(1)]
        show ?thesis by auto
      qed
    qed
  qed
qed

lemma owner_refs_edge:
  "heap_stable disp \<Longrightarrow> edges_kept disp \<Longrightarrow>
   owner_refs disp n appset obj refs w = (None, w') \<Longrightarrow>
   deref w obj = Some u \<Longrightarrow> deref w appset = Some s \<Longrightarrow>
   \<exists>ownerRef \<in> set refs. ref_UID ownerRef = GetUID s \<Longrightarrow>
   \<exists>childNode w1. fst (disp obj w1) = Return childNode None \<and>
      (n, GetKind u, childNode) \<in> set (edges w')"
proof (induction refs arbitrary: w)
  case Nil
  then show ?case by simp
next
  case (Cons ownerRef refs)
  show ?case
  proof (cases "ref_UID ownerRef = GetUID s")
    case False
    with Cons.prems(3,5,6) have "owner_refs disp n appset obj refs w = (None, w')"
      "\<exists>ownerRef \<in> set refs. ref_UID ownerRef = GetUID s" by auto
    from Cons.IH [OF Cons.prems(1,2) this(1) Cons.prems(4,5) this(2)] show ?thesis .
  next
    case True
    from Cons.prems(3,5) True show ?thesis
    proof (cases rule: owner_refs_Cons_match)
      case (stop r1 w1)
      then show ?thesis by simp
    next
      case (continue childNode w1 o1)
      have pre: "prefix (heap w) (heap w1)" by (rule heap_stableD [OF Cons.prems(1) continue(1)])
      from deref_prefix [OF pre Cons.prems(4)] continue(2) have "o1 = u" by simp
      with owner_refs_kept [OF Cons.prems(2) continue(3)]
      have "(n, GetKind u, childNode) \<in> set (edges w')" by auto
      moreover have "fst (disp obj w) = Return childNode None" using continue(1) by simp
      ultimately show ?thesis by blast
    qed
  qed
qed

lemma owner_refs_new_edges:
  "heap_stable disp \<Longrightarrow> no_edges_from_on n disp objs w0 \<Longrightarrow> obj \<in> set objs \<Longrightarrow>
   prefix (heap w0) (heap w) \<Longrightarrow>
   owner_refs disp n appset obj refs w = (r, w') \<Longrightarrow>
   deref w obj = Some u \<Longrightarrow> deref w appset = Some s \<Longrightarrow>
   ed \<in> set (edges w') \<Longrightarrow> fst ed = n \<Longrightarrow>
   ed \<in> set (edges w) \<or>
   ((\<exists>ownerRef \<in> set refs. ref_UID ownerRef = GetUID s) \<and>
    (\<exists>childNode w1. fst (disp obj w1) = Return childNode None \<and> ed = (n, GetKind u, childNode)))"
proof (induction refs arbitrary: w)
  case Nil
  then show ?case by simp
next
  case (Cons ownerRef refs)
  show ?case
  proof (cases "ref_UID ownerRef = GetUID s")
    case False
    with Cons.prems(5,7) have "owner_refs disp n appset obj refs w = (r, w')" by simp
    from Cons.IH [OF Cons.prems(1,2,3,4) this Cons.prems(6,7,8,9)] show ?thesis by auto
  next
    case True
    from Cons.prems(5,7) True show ?thesis
    proof (cases rule: owner_refs_Cons_match)
      case (stop r1 w1)
      with no_edges_from_onD [OF Cons.prems(2,3,4) stop(1)] Cons.prems(8,9) show ?thesis by simp
    next
      case (continue childNode w1 o1)
      have pre: "prefix (heap w) (heap w1)" by (rule heap_stableD [OF Cons.prems(1) continue(1)])
      from deref_prefix [OF pre Cons.prems(6)] continue(2) have o1: "o1 = u" by simp
      have d1: "deref (Relationship n (GetKind o1) childNode w1) obj = Some u"
        "deref (Relationship n (GetKind o1) childNode w1) appset = Some s"
        using deref_prefix [OF pre] Cons.prems(6,7) by simp_all
      have pre0: "prefix (heap w0) (heap (Relationship n (GetKind o1) childNode w1))"
        using prefix_order.trans [OF Cons.prems(4) pre] by simp
      from Cons.IH [OF Cons.prems(1,2,3) pre0 continue(3) d1 Cons.prems(8,9)]
      consider "ed \<in> set (edges w1)" | "ed = (n, GetKind u, childNode)"
        | "(\<exists>ownerRef \<in> set refs. ref_UID ownerRef = GetUID s) \<and>
           (\<exists>childNode w1. fst (disp obj w1) = Return childNode None \<and> ed = (n, GetKind u, childNode))"
        using o1 by auto
      then show ?thesis
      proof cases
        case 1
        from no_edges_from_onD [OF Cons.prems(2,3,4) continue(1) 1 Cons.prems(9)] show ?thesis ..
      next
        case 2
        moreover have "fst (disp obj w) = Return childNode None" using continue(1) by simp
        ultimately show ?thesis using True by auto
      next
        case 3
        then show ?thesis by auto
      qed
    qed
  qed
qed

lemma owner_refs_early_return:
  "owner_refs disp n appset obj refs w = (Some r, w') \<Longrightarrow>
   r = Panic \<or> (\<exists>err. r = Return None (Some err))"
proof (induction refs arbitrary: w)
  case Nil
  then show ?case by simp
next
  case (Cons ownerRef refs)
  then show ?case
    by (auto split: option.splits if_splits prod.splits result.splits)
qed

lemma owned_applications_kept:
  "edges_kept disp \<Longrightarrow> owned_applications disp n appset objs w = (r, w') \<Longrightarrow>
   set (edges w) \<subseteq> set (edges w')"
proof (induction objs arbitrary: w)
  case Nil
  then show ?case by simp
next
  case (Cons x objs)
  show ?case
  proof (cases "deref w x")
    case None
    with Cons.prems show ?thesis by simp
  next
    case (Some o')
    obtain r1 w1 where p: "owner_refs disp n appset x (GetOwnerReferences o') w = (r1, w1)"
      by (metis surj_pair)
    note k = owner_refs_kept [OF Cons.prems(1) p]
    show ?thesis
    proof (cases r1)
      case None
      with Cons.prems(2) Some p have "owned_applications disp n appset objs w1 = (r, w')" by simp
      from Cons.IH [OF Cons.prems(1) this] k show ?thesis by blast
    next
      case (Some x')
      with Cons.prems(2) \<open>deref w x = Some o'\<close> p k show ?thesis by simp
    qed
  qed
qed

lemma owned_applications_Cons_ok:
  assumes "owned_applications disp n appset (x # objs) w = (Return nd None, w')"
  obtains o' w1 where "deref w x = Some o'"
    "owner_refs disp n appset x (GetOwnerReferences o') w = (None, w1)"
    "owned_applications disp n appset objs w1 = (Return nd None, w')"
proof (cases "deref w x")
  case None
  with assms show ?thesis by simp
next
  case (Some o')
  obtain r1 w1 where p: "owner_refs disp n appset x (GetOwnerReferences o') w = (r1, w1)"
    by (metis surj_pair)
  show ?thesis
  proof (cases r1)
    case None
    with assms Some p that show ?thesis by simp
  next
    case (Some r)
    with assms \<open>deref w x = Some o'\<close> p have "r = Return nd None" by simp
    with owner_refs_early_return [of disp n appset x "GetOwnerReferences o'" w r w1] p Some
    show ?thesis by simp
  qed
qed

lemma owned_applications_edge:
  "heap_stable disp \<Longrightarrow> edges_kept disp \<Longrightarrow>
   owned_applications disp n appset objs w = (Return nd None, w') \<Longrightarrow>
   obj \<in> set objs \<Longrightarrow> deref w obj = Some u \<Longrightarrow> deref w appset = Some s \<Longrightarrow>
   \<exists>ownerRef \<in> set (GetOwnerReferences u). ref_UID ownerRef = GetUID s \<Longrightarrow>
   \<exists>childNode w1. fst (disp obj w1) = Return childNode None \<and>
      (n, GetKind u, childNode) \<in> set (edges w')"
proof (induction objs arbitrary: w)
  case Nil
  then show ?case by simp
next
  case (Cons x objs)
  from Cons.prems(3) obtain o' w1 where
    d: "deref w x = Some o'"
    and p: "owner_refs disp n appset x (GetOwnerReferences o') w = (None, w1)"
    and step: "owned_applications disp n appset objs w1 = (Return nd None, w')"
    by (rule owned_applications_Cons_ok)
  have pre: "prefix (heap w) (heap w1)" by (rule owner_refs_heap [OF Cons.prems(1) p])
  show ?case
  proof (cases "obj = x")
    case True
    with d Cons.prems(5) have "o' = u" by simp
    with owner_refs_edge [OF Cons.prems(1,2) p] True d Cons.prems(6,7)
    obtain childNode w0 where "fst (disp obj w0) = Return childNode None"
      "(n, GetKind u, childNode) \<in> set (edges w1)" by blast
    with owned_applications_kept [OF Cons.prems(2) step] show ?thesis by blast
  next
    case False
    with Cons.prems(4) have "obj \<in> set objs" by simp
    from Cons.IH [OF Cons.prems(1,2) step this deref_prefix [OF pre Cons.prems(5)]
                     deref_prefix [OF pre Cons.prems(6)] Cons.prems(7)]
    show ?thesis .
  qed
qed

lemma owned_applications_new_edges:
  "heap_stable disp \<Longrightarrow> no_edges_from_on n disp objs w0 \<Longrightarrow> set xs \<subseteq> set objs \<Longrightarrow>
   prefix (heap w0) (heap w) \<Longrightarrow>
   owned_applications disp n appset xs w = (r, w') \<Longrightarrow>
   deref w appset = Some s \<Longrightarrow> ed \<in> set (edges w') \<Longrightarrow> fst ed = n \<Longrightarrow>
   ed \<in> set (edges w) \<or>
   (\<exists>obj \<in> set xs. \<exists>u. deref w' obj = Some u \<and>
      (\<exists>ownerRef \<in> set (GetOwnerReferences u). ref_UID ownerRef = GetUID s) \<and>
      (\<exists>childNode w1. fst (disp obj w1) = Return childNode None \<and> ed = (n, GetKind u, childNode)))"
proof (induction xs arbitrary: w)
  case Nil
  then show ?case by simp
next
  case (Cons x xs)
  from Cons.prems(3) have x: "x \<in> set objs" and xs: "set xs \<subseteq> set objs" by simp_all
  show ?case
  proof (cases "deref w x")
    case None
    with Cons.prems show ?thesis by simp
  next
    case (Some o')
    obtain r1 w1 where p: "owner_refs disp n appset x (GetOwnerReferences o') w = (r1, w1)"
      by (metis surj_pair)
    have pre: "prefix (heap w) (heap w1)" by (rule owner_refs_heap [OF Cons.prems(1) p])
    have pre0: "prefix (heap w0) (heap w1)" by (rule prefix_order.trans [OF Cons.prems(4) pre])
    have pre': "prefix (heap w1) (heap w')"
    proof (cases r1)
      case None
      with Cons.prems(5) Some p have "owned_applications disp n appset xs w1 = (r, w')" by simp
      then show ?thesis by (rule owned_applications_heap [OF Cons.prems(1)])
    next
      case (Some x')
      with Cons.prems(5) \<open>deref w x = Some o'\<close> p show ?thesis by simp
    qed
    have x': "deref w' x = Some o'"
      by (rule deref_prefix [OF pre' deref_prefix [OF pre Some]])
    have new: "ed \<in> set (edges w) \<or>
      (\<exists>obj \<in> set (x # xs). \<exists>u. deref w' obj = Some u \<and>
        (\<exists>ownerRef \<in> set (GetOwnerReferences u). ref_UID ownerRef = GetUID s) \<and>
        (\<exists>childNode w1. fst (disp obj w1) = Return childNode None \<and> ed = (n, GetKind u, childNode)))"
      if "ed \<in> set (edges w1)"
      using owner_refs_new_edges [OF Cons.prems(1,2) x Cons.prems(4) p Some Cons.prems(6) that
              Cons.prems(8)] x'
      by auto
    show ?thesis
    proof (cases r1)
      case None
      with Cons.prems(5) Some p have step: "owned_applications disp n appset xs w1 = (r, w')"
        by simp
      from Cons.IH [OF Cons.prems(1,2) xs pre0 step deref_prefix [OF pre Cons.prems(6)]
                       Cons.prems(7,8)]
      show ?thesis using new by auto
    next
      case (Some x')
      with Cons.prems(5) \<open>deref w x = Some o'\<close> p have "w' = w1" by simp
      with new Cons.prems(7) show ?thesis by simp
    qed
  qed
qed

lemma getChildApplications_valid:
  "getChildApplications e w = ((objs, err), w1) \<Longrightarrow> \<forall>a \<in> set objs. a < length (heap w1)"
  by (auto simp: getChildApplications_def getObjectsForAResource_def alloc_def range_map_def
      split: sum.splits)

section \<open>The engine as its own dispatcher\<close>

text \<open>
  One level of the recursion: the dispatcher of the sources, over a dispatcher for the
  objects it discovers in turn, is itself a dispatcher that keeps the objects and the
  edges, and an Application adds edges that leave its own node only.
\<close>

lemma Application_edges:
  assumes "edges_kept disp" and "Application e disp app w = (r, w')"
  shows "set (edges w) \<subseteq> set (edges w')"
proof (cases "deref w app")
  case None
  with assms(2) show ?thesis by (simp add: Application_unfold)
next
  case (Some a)
  have h1: "edges (snd (graph_Node a w)) = edges w" by simp
  show ?thesis
  proof (cases "spec_project (Object_spec a)")
    case None
    with assms(2) Some h1 show ?thesis by (auto simp: Application_unfold)
  next
    case (Some projName)
    from \<open>deref w app = Some a\<close> Some show ?thesis
    proof (cases rule: Application_cases [where e = e and disp = disp])
      case (harvest_failed objs err w2)
      with assms(2) getAllObjects_frame(2) [OF harvest_failed(1)] h1 show ?thesis by simp
    next
      case (early_return objs w2 r1 w3)
      with assms(2) getAllObjects_frame(2) [OF early_return(1)] h1
        track_children_edges [OF assms(1) early_return(2)]
      show ?thesis by simp
    next
      case (closure_panic objs w2 children namespaces w3)
      with assms(2) getAllObjects_frame(2) [OF closure_panic(1)] h1
        track_children_edges [OF assms(1) closure_panic(2)]
      show ?thesis by simp
    next
      case (resolved objs w2 children namespaces w3 children')
      from assms(2) resolved(4)
      have "resolve_children disp (node_of a) (Slice e children') w3 = (r, w')" by simp
      from resolve_children_edges [OF assms(1) this] getAllObjects_frame(2) [OF resolved(1)] h1
        track_children_edges [OF assms(1) resolved(2)]
      show ?thesis by auto
    qed
  qed
qed

lemma ApplicationSet_edges:
  assumes "edges_kept disp" and "ApplicationSet e disp appset w = (r, w')"
  shows "set (edges w) \<subseteq> set (edges w')"
proof -
  obtain objs err w1 where g: "getChildApplications e w = ((objs, err), w1)"
    by (metis surj_pair)
  note h1 = getChildApplications_frame(2) [OF g]
  show ?thesis
  proof (cases "err = None \<and> deref w1 appset \<noteq> None")
    case True
    then obtain s where s: "deref w1 appset = Some s" by auto
    with assms(2) g True
    have "owned_applications disp (node_of s) appset objs (snd (graph_Node s w1)) = (r, w')"
      by (simp add: ApplicationSet_def graph_Node_def)
    from owned_applications_kept [OF assms(1) this] h1 show ?thesis by simp
  next
    case False
    with assms(2) g have "w' = w1"
      by (auto simp: ApplicationSet_def split: option.splits)
    with h1 show ?thesis by simp
  qed
qed

lemma heap_stable_Unstructured_dispatch:
  "heap_stable disp \<Longrightarrow> heap_stable (Unstructured_dispatch e disp)"
  unfolding heap_stable_def [of "Unstructured_dispatch e disp"]
  by (metis Unstructured_dispatch_heap prod.collapse)

lemma edges_kept_Unstructured_dispatch:
  assumes "edges_kept disp"
  shows "edges_kept (Unstructured_dispatch e disp)"
proof -
  have "set (edges w) \<subseteq> set (edges w')" if "Unstructured_dispatch e disp a w = (r, w')"
    for a w r w'
    using that Application_edges [OF assms] ApplicationSet_edges [OF assms] AppProject_edges
    by (auto simp: Unstructured_dispatch_def graph_Node_def split: option.splits if_splits)
  then show ?thesis
    unfolding edges_kept_def by (metis prod.collapse)
qed

lemma project_edge_no_edges_from:
  assumes "no_edges_from n disp" and "n' \<noteq> n"
    and "project_edge disp n' projName obj o' w = (r, w1)"
    and "ed \<in> set (edges w1)" and "fst ed = n"
  shows "ed \<in> set (edges w)"
proof (cases "is_project o' projName")
  case False
  with assms(3,4) show ?thesis by (simp add: project_edge_def)
next
  case True
  obtain r0 w0 where d: "disp obj w = (r0, w0)" by (metis surj_pair)
  from assms(3) True d have "w1 = w0 \<or> (\<exists>l c. w1 = Relationship n' l c w0)"
    by (auto simp: project_edge_def split: result.splits option.splits)
  with assms(2,4,5) have "ed \<in> set (edges w0)" by auto
  from no_edges_fromD [OF assms(1) d this assms(5)] show ?thesis .
qed

lemma track_children_no_edges_from:
  "no_edges_from n disp \<Longrightarrow> n' \<noteq> n \<Longrightarrow>
   track_children disp n' projName app objs cn w = (r, w') \<Longrightarrow>
   ed \<in> set (edges w') \<Longrightarrow> fst ed = n \<Longrightarrow> ed \<in> set (edges w)"
proof (induction objs arbitrary: cn w)
  case Nil
  then show ?case by simp
next
  case (Cons obj objs)
  show ?case
  proof (cases "deref w obj")
    case None
    with Cons.prems show ?thesis by simp
  next
    case (Some o')
    obtain r1 w1 where p: "project_edge disp n' projName obj o' w = (r1, w1)"
      by (metis surj_pair)
    have older: "ed \<in> set (edges w)" if "ed \<in> set (edges w1)"
      by (rule project_edge_no_edges_from [OF Cons.prems(1,2) p that Cons.prems(5)])
    show ?thesis
    proof (cases "r1 = None \<and> deref w1 obj \<noteq> None \<and> deref w1 app \<noteq> None")
      case True
      then obtain o1 and a1 :: Unstructured where "deref w1 obj = Some o1" "deref w1 app = Some a1"
        by auto
      with Cons.prems(3) Some p True
      have "track_children disp n' projName app objs (track_signals obj o1 (GetName a1) cn) w1
              = (r, w')"
        by simp
      from Cons.IH [OF Cons.prems(1,2) this Cons.prems(4,5)] show ?thesis by (rule older)
    next
      case False
      with Cons.prems(3) Some p have "w' = w1"
        by (auto split: option.splits)
      with older Cons.prems(4) show ?thesis by simp
    qed
  qed
qed

lemma resolve_children_no_edges_from:
  "no_edges_from n disp \<Longrightarrow> n' \<noteq> n \<Longrightarrow> resolve_children disp n' cs w = (r, w') \<Longrightarrow>
   ed \<in> set (edges w') \<Longrightarrow> fst ed = n \<Longrightarrow> ed \<in> set (edges w)"
proof (induction cs arbitrary: w)
  case Nil
  then show ?case by simp
next
  case (Cons c cs)
  obtain r1 w1 where d: "disp c w = (r1, w1)" by (metis surj_pair)
  have older: "ed \<in> set (edges w)" if "ed \<in> set (edges w1)"
    by (rule no_edges_fromD [OF Cons.prems(1) d that Cons.prems(5)])
  show ?case
  proof (cases "\<exists>cn o1. r1 = Return cn None \<and> deref w1 c = Some o1")
    case True
    then obtain cn o1 where t: "r1 = Return cn None" "deref w1 c = Some o1" by blast
    with Cons.prems(3) d
    have "resolve_children disp n' cs (Relationship n' (GetKind o1) cn w1) = (r, w')"
      by simp
    from Cons.IH [OF Cons.prems(1,2) this Cons.prems(4,5)] Cons.prems(2,5)
    have "ed \<in> set (edges w1)" by auto
    then show ?thesis by (rule older)
  next
    case False
    with Cons.prems(3) d have "w' = w1"
      by (auto split: result.splits option.splits)
    with older Cons.prems(4) show ?thesis by simp
  qed
qed

lemma Application_no_edges_from:
  assumes nf: "no_edges_from n disp" and app: "deref w app = Some a" and ne: "node_of a \<noteq> n"
    and run: "Application e disp app w = (r, w')"
    and ed: "ed \<in> set (edges w')" "fst ed = n"
  shows "ed \<in> set (edges w)"
proof (cases "spec_project (Object_spec a)")
  case None
  with run app ed show ?thesis by (auto simp: Application_unfold)
next
  case (Some projName)
  have h1: "edges (snd (graph_Node a w)) = edges w" by simp
  from app Some show ?thesis
  proof (cases rule: Application_cases [where e = e and disp = disp])
    case (harvest_failed objs err w2)
    with run ed getAllObjects_frame(2) [OF harvest_failed(1)] h1 show ?thesis by simp
  next
    case (early_return objs w2 r1 w3)
    with run ed have "ed \<in> set (edges w3)" by simp
    from track_children_no_edges_from [OF nf ne early_return(2) this ed(2)]
      getAllObjects_frame(2) [OF early_return(1)] h1
    show ?thesis by simp
  next
    case (closure_panic objs w2 children namespaces w3)
    with run ed have "ed \<in> set (edges w3)" by simp
    from track_children_no_edges_from [OF nf ne closure_panic(2) this ed(2)]
      getAllObjects_frame(2) [OF closure_panic(1)] h1
    show ?thesis by simp
  next
    case (resolved objs w2 children namespaces w3 children')
    from run resolved(4)
    have "resolve_children disp (node_of a) (Slice e children') w3 = (r, w')" by simp
    from resolve_children_no_edges_from [OF nf ne this ed]
    have "ed \<in> set (edges w3)" .
    from track_children_no_edges_from [OF nf ne resolved(2) this ed(2)]
      getAllObjects_frame(2) [OF resolved(1)] h1
    show ?thesis by simp
  qed
qed

lemma Unstructured_dispatch_no_edges_from_on:
  assumes nf: "no_edges_from n disp"
    and apps: "\<forall>obj \<in> set objs. \<exists>u. deref w0 obj = Some u \<and> GetKind u = ''Application'' \<and>
                 node_of u \<noteq> n"
  shows "no_edges_from_on n (Unstructured_dispatch e disp) objs w0"
  unfolding no_edges_from_on_def
proof (intro ballI allI impI)
  fix obj w ed
  assume obj: "obj \<in> set objs" and pre: "prefix (heap w0) (heap w)"
    and ed: "ed \<in> set (edges (snd (Unstructured_dispatch e disp obj w)))" "fst ed = n"
  from apps obj obtain u where u: "deref w0 obj = Some u" "GetKind u = ''Application''"
    "node_of u \<noteq> n" by blast
  from deref_prefix [OF pre u(1)] have d: "deref w obj = Some u" .
  with u(2) have "Unstructured_dispatch e disp obj w = Application e disp obj w"
    by (simp add: Unstructured_dispatch_def)
  with ed have "ed \<in> set (edges (snd (Application e disp obj w)))" by simp
  from Application_no_edges_from [OF nf d u(3) prod.collapse [symmetric] this ed(2)]
  show "ed \<in> set (edges w)" .
qed

section \<open>The children of an ApplicationSet\<close>

text \<open>
  C3: let the resolution of the ApplicationSet at \<open>appset\<close> return without error, and
  let the dispatcher, when it resolves one of the listed Applications, add no edge that
  leaves the ApplicationSet's node (the dispatcher of the sources does not, unless the
  Application has the ApplicationSet's own identity). Every listed Application with an
  owner reference whose UID is the ApplicationSet's UID is linked to the node, with its
  kind as the label; and every edge that leaves the node and is new goes to such an
  Application. Labels, annotations and namespaces play no part.
\<close>

theorem ApplicationSet_children_are_owned_applications:
  assumes "heap_stable disp" and "edges_kept disp"
    and "deref w appset = Some s"
    and "getChildApplications e w = ((objs, err), w1)"
    and "no_edges_from_on (node_of s) disp objs w1"
    and "ApplicationSet e disp appset w = (Return nd None, w')"
  shows "(\<forall>obj \<in> set objs. \<forall>u. deref w1 obj = Some u \<and>
            (\<exists>ownerRef \<in> set (GetOwnerReferences u). ref_UID ownerRef = GetUID s) \<longrightarrow>
            (\<exists>childNode w2. fst (disp obj w2) = Return childNode None \<and>
               (node_of s, GetKind u, childNode) \<in> set (edges w'))) \<and>
         (\<forall>ed \<in> set (edges w'). fst ed = node_of s \<longrightarrow>
            ed \<in> set (edges w) \<or>
            (\<exists>obj \<in> set objs. \<exists>u. deref w1 obj = Some u \<and>
               (\<exists>ownerRef \<in> set (GetOwnerReferences u). ref_UID ownerRef = GetUID s) \<and>
               (\<exists>childNode w2. fst (disp obj w2) = Return childNode None \<and>
                  ed = (node_of s, GetKind u, childNode))))"
proof -
  note fr = getChildApplications_frame [OF assms(4)]
  have s1: "deref w1 appset = Some s" by (rule deref_prefix [OF fr(1) assms(3)])
  have err: "err = None"
    using assms(4,6) by (cases err) (simp_all add: ApplicationSet_def)
  have run: "owned_applications disp (node_of s) appset objs (snd (graph_Node s w1))
               = (Return nd None, w')"
    using assms(4,6) s1 err by (simp add: ApplicationSet_def graph_Node_def)
  have s2: "deref (snd (graph_Node s w1)) appset = Some s" using s1 by simp
  have pre0: "prefix (heap w1) (heap (snd (graph_Node s w1)))" by simp
  have pre: "prefix (heap w1) (heap w')"
    using owned_applications_heap [OF assms(1) run] by simp
  have 1: "\<exists>childNode w2. fst (disp obj w2) = Return childNode None \<and>
               (node_of s, GetKind u, childNode) \<in> set (edges w')"
    if "obj \<in> set objs" "deref w1 obj = Some u"
      "\<exists>ownerRef \<in> set (GetOwnerReferences u). ref_UID ownerRef = GetUID s" for obj u
  proof -
    have "deref (snd (graph_Node s w1)) obj = Some u" using that(2) by simp
    from owned_applications_edge [OF assms(1,2) run that(1) this s2 that(3)] show ?thesis .
  qed
  have 2: "ed \<in> set (edges w) \<or>
            (\<exists>obj \<in> set objs. \<exists>u. deref w1 obj = Some u \<and>
               (\<exists>ownerRef \<in> set (GetOwnerReferences u). ref_UID ownerRef = GetUID s) \<and>
               (\<exists>childNode w2. fst (disp obj w2) = Return childNode None \<and>
                  ed = (node_of s, GetKind u, childNode)))"
    if "ed \<in> set (edges w')" "fst ed = node_of s" for ed
  proof -
    from owned_applications_new_edges [OF assms(1,5) subset_refl pre0 run s2 that]
    consider "ed \<in> set (edges (snd (graph_Node s w1)))"
      | obj u childNode w2 where "obj \<in> set objs" "deref w' obj = Some u"
          "\<exists>ownerRef \<in> set (GetOwnerReferences u). ref_UID ownerRef = GetUID s"
          "fst (disp obj w2) = Return childNode None" "ed = (node_of s, GetKind u, childNode)"
      by blast
    then show ?thesis
    proof cases
      case 1
      then show ?thesis using fr(2) by simp
    next
      case 2
      from getChildApplications_valid [OF assms(4)] 2(1) obtain v where v: "deref w1 obj = Some v"
        by (auto simp: deref_def)
      from deref_prefix [OF pre v] 2(2) have "v = u" by simp
      with v 2 show ?thesis by blast
    qed
  qed
  from 1 2 show ?thesis by blast
qed

text \<open>
  The scenario of the spec, with the dispatcher of the sources resolving the children:
  \<open>child1\<close> is resolved as an Application, with a harvest of its own.
\<close>

theorem ApplicationSet_children_are_owned_applications_witness:
  "heap_stable (Unstructured_dispatch cluster5 AppProject) \<and>
   edges_kept (Unstructured_dispatch cluster5 AppProject) \<and>
   deref world_set1 0 = Some set1 \<and>
   fst (getChildApplications cluster5 world_set1) = ([1, 2], None) \<and>
   no_edges_from_on (node_of set1) (Unstructured_dispatch cluster5 AppProject) [1, 2]
     (snd (getChildApplications cluster5 world_set1)) \<and>
   deref (snd (getChildApplications cluster5 world_set1)) 1 = Some child1 \<and>
   deref (snd (getChildApplications cluster5 world_set1)) 2 = Some child2 \<and>
   map ref_UID (GetOwnerReferences child1) = [GetUID set1] \<and>
   GetOwnerReferences child2 = [] \<and>
   map_of (GetLabels child2) ''app.kubernetes.io/instance'' = Some (GetName set1) \<and>
   fst (ApplicationSet cluster5 (Unstructured_dispatch cluster5 AppProject) 0 world_set1)
     = Return (Some (node_of set1)) None \<and>
   (\<exists>childNode w2. fst (Unstructured_dispatch cluster5 AppProject 1 w2) = Return childNode None \<and>
      (node_of set1, GetKind child1, childNode)
        \<in> set (edges (snd (ApplicationSet cluster5 (Unstructured_dispatch cluster5 AppProject)
                              0 world_set1)))) \<and>
   edges (snd (ApplicationSet cluster5 (Unstructured_dispatch cluster5 AppProject) 0 world_set1))
     = [(node_of set1, ''Application'', Some (node_of child1))]"
proof -
  let ?disp = "Unstructured_dispatch cluster5 AppProject"
  have hs: "heap_stable ?disp"
    by (rule heap_stable_Unstructured_dispatch [OF heap_stable_AppProject])
  have ek: "edges_kept ?disp"
    by (rule edges_kept_Unstructured_dispatch [OF edges_kept_AppProject])
  have 4: "deref world_set1 0 = Some set1" by (simp add: deref_def world_set1_def)
  have 5: "getChildApplications cluster5 world_set1
             = (([1, 2], None), snd (getChildApplications cluster5 world_set1))"
    by (simp add: cluster_defs engine_defs)
  have c1: "deref (snd (getChildApplications cluster5 world_set1)) 1 = Some child1"
    by (simp add: cluster_defs engine_defs)
  have c2: "deref (snd (getChildApplications cluster5 world_set1)) 2 = Some child2"
    by (simp add: cluster_defs engine_defs)
  have k: "GetKind child1 = ''Application''" "GetKind child2 = ''Application''"
    "node_of child1 \<noteq> node_of set1" "node_of child2 \<noteq> node_of set1"
    by (simp_all add: child1_def child2_def set1_def object_def node_of_def)
  have nf: "no_edges_from_on (node_of set1) ?disp [1, 2]
              (snd (getChildApplications cluster5 world_set1))"
    by (rule Unstructured_dispatch_no_edges_from_on [OF no_edges_from_AppProject])
       (use c1 c2 k in simp)
  have 6: "ApplicationSet cluster5 ?disp 0 world_set1
             = (Return (Some (node_of set1)) None, snd (ApplicationSet cluster5 ?disp 0 world_set1))"
    by (simp add: cluster_defs engine_defs)
  have o1: "map ref_UID (GetOwnerReferences child1) = [GetUID set1]"
    by (simp add: child1_def set1_def object_def)
  have o2: "GetOwnerReferences child2 = []" by (simp add: child2_def object_def)
  have l2: "map_of (GetLabels child2) ''app.kubernetes.io/instance'' = Some (GetName set1)"
    by (simp add: child2_def set1_def object_def)
  have g: "fst (getChildApplications cluster5 world_set1) = ([1, 2], None)"
    using 5 by (metis fst_conv)
  have r: "fst (ApplicationSet cluster5 ?disp 0 world_set1) = Return (Some (node_of set1)) None"
    using 6 by (metis fst_conv)
  have ed: "edges (snd (ApplicationSet cluster5 ?disp 0 world_set1))
     = [(node_of set1, ''Application'', Some (node_of child1))]"
    by (simp add: cluster_defs engine_defs)
  have own: "\<exists>ownerRef \<in> set (GetOwnerReferences child1). ref_UID ownerRef = GetUID set1"
    by (simp add: child1_def set1_def object_def)
  from ApplicationSet_children_are_owned_applications [OF hs ek 4 5 nf 6] c1 own
  have "\<exists>childNode w2. fst (?disp 1 w2) = Return childNode None \<and>
      (node_of set1, GetKind child1, childNode)
        \<in> set (edges (snd (ApplicationSet cluster5 ?disp 0 world_set1)))"
    by auto
  then show ?thesis
    using hs ek nf 4 g c1 c2 o1 o2 l2 r ed by blast
qed

section \<open>The universe of a harvest\<close>

lemma set_concat_update:
  "set (concat (map snd (AList.update k v al))) \<subseteq> set v \<union> set (concat (map snd al))"
  by (induction al) auto

lemma distinct_concat_update:
  "distinct (concat (map snd al)) \<Longrightarrow> distinct v \<Longrightarrow>
   set v \<inter> set (concat (map snd al)) = {} \<Longrightarrow>
   distinct (concat (map snd (AList.update k v al)))"
proof (induction al)
  case Nil
  then show ?case by simp
next
  case (Cons p al)
  show ?case
  proof (cases "fst p = k")
    case True
    with Cons.prems show ?thesis by auto
  next
    case False
    have "set (snd p) \<inter> set (concat (map snd (AList.update k v al))) = {}"
      using set_concat_update [of k v al] Cons.prems by auto
    with False Cons show ?thesis by auto
  qed
qed

lemma gvr_String_inj [simp]:
  "gvr_String (WithResource gv a) = gvr_String (WithResource gv b) \<longleftrightarrow> a = b"
  by (simp add: gvr_String_def WithResource_def)

lemma deref_alloc_old:
  "\<forall>a \<in> set ptrs. a < length (heap w) \<Longrightarrow>
   map (deref (w\<lparr>heap := heap w @ items\<rparr>)) ptrs = map (deref w) ptrs"
  by (auto simp: deref_def nth_append)

lemma deref_alloc_new:
  "map (deref (w\<lparr>heap := heap w @ items\<rparr>)) [length (heap w) ..< length (heap w) + length items]
     = map Some items"
  by (auto simp: deref_def nth_append intro!: nth_equalityI)

lemma map_deref_prefix:
  "prefix (heap w) (heap w') \<Longrightarrow> \<forall>a \<in> set ptrs. a < length (heap w) \<Longrightarrow>
   map (deref w') ptrs = map (deref w) ptrs"
  by (auto simp: deref_def prefix_def nth_append)

lemma getObjectsForAResource_result:
  "getObjectsForAResource e (WithResource gv name) results w =
     ((case ListResource e (WithResource gv name) of Inl err \<Rightarrow> Some err | Inr items \<Rightarrow> None,
       AList.update (gvr_String (WithResource gv name))
         [length (heap w) ..< length (heap w) + length (listed e gv name)] results),
      w\<lparr>heap := heap w @ listed e gv name\<rparr>)"
  by (simp add: getObjectsForAResource_def listed_def alloc_def split: sum.splits)

lemma slots_ok_step:
  assumes inv: "slots_ok e gv base N results w"
    and run: "getObjectsForAResource e (WithResource gv name) results w = ((err, results1), w1)"
  shows "slots_ok e gv base (insert name N) results1 w1"
proof -
  let ?k = "gvr_String (WithResource gv name)"
  let ?new = "[length (heap w) ..< length (heap w) + length (listed e gv name)]"
  from run have r1: "results1 = AList.update ?k ?new results"
    and w1: "w1 = w\<lparr>heap := heap w @ listed e gv name\<rparr>"
    by (simp_all add: getObjectsForAResource_result)
  from inv have base: "base \<le> length (heap w)"
    and dk: "distinct (map fst results)"
    and dp: "distinct (concat (map snd results))"
    and rg: "\<forall>a \<in> set (concat (map snd results)). base \<le> a \<and> a < length (heap w)"
    and keys: "fst ` set results = (\<lambda>name. gvr_String (WithResource gv name)) ` N"
    and content: "\<forall>name \<in> N. \<forall>ptrs. map_of results (gvr_String (WithResource gv name)) = Some ptrs \<longrightarrow>
        map (deref w) ptrs = map Some (listed e gv name)"
    by (simp_all add: slots_ok_def)
  have 1: "base \<le> length (heap w1)" using base w1 by simp
  have 2: "distinct (map fst results1)" using dk r1 by (simp add: distinct_update)
  have fresh: "set ?new \<inter> set (concat (map snd results)) = {}"
    using rg by fastforce
  have 3: "distinct (concat (map snd results1))"
    unfolding r1 by (rule distinct_concat_update [OF dp _ fresh]) simp
  have 4: "\<forall>a \<in> set (concat (map snd results1)). base \<le> a \<and> a < length (heap w1)"
  proof
    fix a assume "a \<in> set (concat (map snd results1))"
    with set_concat_update [of ?k ?new results] r1
    have "a \<in> set ?new \<or> a \<in> set (concat (map snd results))" by blast
    then show "base \<le> a \<and> a < length (heap w1)"
    proof
      assume "a \<in> set ?new"
      with base w1 show ?thesis by simp
    next
      assume "a \<in> set (concat (map snd results))"
      with rg have "base \<le> a \<and> a < length (heap w)" by blast
      with w1 show ?thesis by simp
    qed
  qed
  have 5: "fst ` set results1 = (\<lambda>name. gvr_String (WithResource gv name)) ` insert name N"
    using keys r1 by (simp add: dom_update)
  have 6: "map (deref w1) ptrs = map Some (listed e gv n')"
    if n': "n' \<in> insert name N"
      and m: "map_of results1 (gvr_String (WithResource gv n')) = Some ptrs" for n' ptrs
  proof (cases "n' = name")
    case True
    with m r1 have "ptrs = ?new" by (simp add: update_conv')
    with True w1 show ?thesis by (simp add: deref_alloc_new)
  next
    case False
    with n' have inN: "n' \<in> N" by simp
    from False m r1 have old: "map_of results (gvr_String (WithResource gv n')) = Some ptrs"
      by (simp add: update_conv')
    then have "(gvr_String (WithResource gv n'), ptrs) \<in> set results"
      by (rule map_of_SomeD)
    then have "set ptrs \<subseteq> set (concat (map snd results))" by force
    with rg have "\<forall>a \<in> set ptrs. a < length (heap w)" by blast
    from deref_alloc_old [OF this] content inN old w1 show ?thesis by simp
  qed
  from 1 2 3 4 5 6 show ?thesis unfolding slots_ok_def by blast
qed

lemma listed_names_Cons:
  "listed_names (api # apis) =
     (if api_Kind api = ''Event'' then listed_names apis else api_Name api # listed_names apis)"
  by (simp add: listed_names_def)

lemma harvest_group_slots_ok:
  "slots_ok e gv base N results w \<Longrightarrow> harvest_group e gv apis results w = (results', w') \<Longrightarrow>
   slots_ok e gv base (N \<union> set (listed_names apis)) results' w'"
proof (induction apis arbitrary: N results w)
  case Nil
  then show ?case by (simp add: listed_names_def)
next
  case (Cons api apis)
  show ?case
  proof (cases "api_Kind api = ''Event''")
    case True
    with Cons show ?thesis by (simp add: listed_names_Cons)
  next
    case False
    obtain err results1 w1 where
      g: "getObjectsForAResource e (WithResource gv (api_Name api)) results w = ((err, results1), w1)"
      by (metis surj_pair)
    from Cons.prems(2) False g have step: "harvest_group e gv apis results1 w1 = (results', w')"
      by simp
    from Cons.IH [OF slots_ok_step [OF Cons.prems(1) g] step] False show ?thesis
      by (simp add: listed_names_Cons)
  qed
qed

lemma slots_ok_empty: "slots_ok e gv (length (heap w)) {} [] w"
  by (simp add: slots_ok_def)

lemma mset_concat_range_map:
  "mset (concat (map snd (range_map e m))) = mset (concat (map snd m))"
proof -
  have "mset (concat (map snd xs)) = \<Sum>\<^sub># (image_mset (\<lambda>p. mset (snd p)) (mset xs))"
    for xs :: "(string \<times> addr list) list"
    by (induction xs) simp_all
  then show ?thesis by (simp add: range_map_def)
qed

lemma set_range_map [simp]: "set (range_map e m) = set m"
  by (simp add: range_map_def)

lemma slot_segment:
  assumes "(k, ptrs) \<in> set (range_map e m)"
  shows "\<exists>pre post. concat (map snd (range_map e m)) = pre @ ptrs @ post"
proof -
  from split_list [OF assms] obtain ys zs where "range_map e m = ys @ (k, ptrs) # zs" by blast
  then have "concat (map snd (range_map e m)) = concat (map snd ys) @ ptrs @ concat (map snd zs)"
    by simp
  then show ?thesis by blast
qed

lemma harvest_group_universe:
  assumes run: "harvest_group e gv apis [] w = (results, w')"
  defines "G \<equiv> concat (map snd (range_map e results))"
  shows "distinct G"
    and "\<forall>a \<in> set G. length (heap w) \<le> a \<and> a < length (heap w')"
    and "\<forall>name \<in> set (listed_names apis). \<exists>pre ptrs post.
           G = pre @ ptrs @ post \<and> map (deref w') ptrs = map Some (listed e gv name)"
    and "\<forall>a \<in> set G. \<exists>name \<in> set (listed_names apis). \<exists>u.
           deref w' a = Some u \<and> u \<in> set (listed e gv name)"
proof -
  let ?key = "\<lambda>name. gvr_String (WithResource gv name)"
  from harvest_group_slots_ok [OF slots_ok_empty run]
  have inv: "slots_ok e gv (length (heap w)) (set (listed_names apis)) results w'" by simp
  then have dk: "distinct (map fst results)"
    and dp: "distinct (concat (map snd results))"
    and rg: "\<forall>a \<in> set (concat (map snd results)). length (heap w) \<le> a \<and> a < length (heap w')"
    and keys: "fst ` set results = ?key ` set (listed_names apis)"
    and content: "\<forall>name \<in> set (listed_names apis). \<forall>ptrs.
        map_of results (?key name) = Some ptrs \<longrightarrow>
        map (deref w') ptrs = map Some (listed e gv name)"
    by (simp_all add: slots_ok_def)
  have m: "mset G = mset (concat (map snd results))"
    unfolding G_def by (rule mset_concat_range_map)
  from mset_eq_imp_distinct_iff [OF m] dp show "distinct G" by simp
  from mset_eq_setD [OF m] rg
  show "\<forall>a \<in> set G. length (heap w) \<le> a \<and> a < length (heap w')" by simp
  show "\<forall>name \<in> set (listed_names apis). \<exists>pre ptrs post.
           G = pre @ ptrs @ post \<and> map (deref w') ptrs = map Some (listed e gv name)"
  proof
    fix name assume n: "name \<in> set (listed_names apis)"
    with keys have "?key name \<in> fst ` set results" by blast
    then obtain ptrs where p: "(?key name, ptrs) \<in> set results" by force
    with dk have "map_of results (?key name) = Some ptrs" by simp
    with content n have c: "map (deref w') ptrs = map Some (listed e gv name)" by blast
    from p have "(?key name, ptrs) \<in> set (range_map e results)" by simp
    from slot_segment [OF this] c
    show "\<exists>pre ptrs post. G = pre @ ptrs @ post \<and>
            map (deref w') ptrs = map Some (listed e gv name)"
      unfolding G_def by blast
  qed
  show "\<forall>a \<in> set G. \<exists>name \<in> set (listed_names apis). \<exists>u.
           deref w' a = Some u \<and> u \<in> set (listed e gv name)"
  proof
    fix a assume "a \<in> set G"
    then obtain k ptrs where p: "(k, ptrs) \<in> set results" and a: "a \<in> set ptrs"
      unfolding G_def by auto
    from p keys obtain name where n: "name \<in> set (listed_names apis)" and k: "k = ?key name"
      by force
    from p dk k have "map_of results (?key name) = Some ptrs" by simp
    with content n have c: "map (deref w') ptrs = map Some (listed e gv name)" by blast
    from a obtain i where i: "i < length ptrs" "ptrs ! i = a" by (auto simp: in_set_conv_nth)
    from c have len: "length ptrs = length (listed e gv name)"
      by (metis length_map)
    from c i have "deref w' a = Some (listed e gv name ! i)"
      by (metis len nth_map)
    moreover from i len have "listed e gv name ! i \<in> set (listed e gv name)" by simp
    ultimately show "\<exists>name \<in> set (listed_names apis). \<exists>u.
           deref w' a = Some u \<and> u \<in> set (listed e gv name)"
      using n by blast
  qed
qed

lemma harvest_lists_universe:
  "harvest_lists e ls acc w = (objs, w') \<Longrightarrow>
   \<exists>new. objs = acc @ new \<and> distinct new \<and>
     (\<forall>a \<in> set new. length (heap w) \<le> a \<and> a < length (heap w')) \<and>
     (\<forall>L \<in> set ls. \<forall>name \<in> set (listed_names (APIResources L)). \<exists>pre ptrs post.
        new = pre @ ptrs @ post \<and>
        map (deref w') ptrs = map Some (listed e (FromAPIVersion (GroupVersion L)) name)) \<and>
     (\<forall>a \<in> set new. \<exists>L \<in> set ls. \<exists>name \<in> set (listed_names (APIResources L)). \<exists>u.
        deref w' a = Some u \<and> u \<in> set (listed e (FromAPIVersion (GroupVersion L)) name))"
proof (induction ls arbitrary: acc w)
  case Nil
  then show ?case by simp
next
  case (Cons L ls)
  let ?gv = "FromAPIVersion (GroupVersion L)"
  obtain results w1 where g: "harvest_group e ?gv (APIResources L) [] w = (results, w1)"
    by (metis surj_pair)
  define G where "G = concat (map snd (range_map e results))"
  note hg = harvest_group_universe [OF g, folded G_def]
  from Cons.prems g have step: "harvest_lists e ls (acc @ G) w1 = (objs, w')"
    by (simp add: G_def)
  from Cons.IH [OF step] obtain new where
    o: "objs = (acc @ G) @ new" and d: "distinct new"
    and rg: "\<forall>a \<in> set new. length (heap w1) \<le> a \<and> a < length (heap w')"
    and seg: "\<forall>L \<in> set ls. \<forall>name \<in> set (listed_names (APIResources L)). \<exists>pre ptrs post.
        new = pre @ ptrs @ post \<and>
        map (deref w') ptrs = map Some (listed e (FromAPIVersion (GroupVersion L)) name)"
    and src: "\<forall>a \<in> set new. \<exists>L \<in> set ls. \<exists>name \<in> set (listed_names (APIResources L)). \<exists>u.
        deref w' a = Some u \<and> u \<in> set (listed e (FromAPIVersion (GroupVersion L)) name)"
    by blast
  have pre1: "prefix (heap w) (heap w1)" using harvest_group_frame [OF g] by simp
  have pre2: "prefix (heap w1) (heap w')" using harvest_lists_frame [OF step] by simp
  have len: "length (heap w) \<le> length (heap w1)" "length (heap w1) \<le> length (heap w')"
    using pre1 pre2 by (auto simp: prefix_def)
  have 1: "objs = acc @ (G @ new)" using o by simp
  have 2: "distinct (G @ new)"
    using hg(1) d hg(2) rg by fastforce
  have 3: "\<forall>a \<in> set (G @ new). length (heap w) \<le> a \<and> a < length (heap w')"
    using hg(2) rg len by fastforce
  have 4: "\<exists>pre ptrs post. G @ new = pre @ ptrs @ post \<and>
        map (deref w') ptrs = map Some (listed e (FromAPIVersion (GroupVersion L')) name)"
    if "L' \<in> set (L # ls)" "name \<in> set (listed_names (APIResources L'))" for L' name
  proof (cases "L' \<in> set ls")
    case True
    with seg that(2) obtain pre ptrs post where "new = pre @ ptrs @ post"
      "map (deref w') ptrs = map Some (listed e (FromAPIVersion (GroupVersion L')) name)"
      by blast
    then have "G @ new = (G @ pre) @ ptrs @ post \<and>
      map (deref w') ptrs = map Some (listed e (FromAPIVersion (GroupVersion L')) name)" by simp
    then show ?thesis by blast
  next
    case False
    with that have L': "L' = L" by simp
    with hg(3) that(2) obtain pre ptrs post where p: "G = pre @ ptrs @ post"
      "map (deref w1) ptrs = map Some (listed e ?gv name)" by blast
    from p(1) hg(2) have "\<forall>a \<in> set ptrs. a < length (heap w1)" by auto
    from map_deref_prefix [OF pre2 this] p(2)
    have "map (deref w') ptrs = map Some (listed e ?gv name)" by simp
    with p(1) L' have "G @ new = pre @ ptrs @ (post @ new) \<and>
      map (deref w') ptrs = map Some (listed e (FromAPIVersion (GroupVersion L')) name)" by simp
    then show ?thesis by blast
  qed
  have 5: "\<exists>L' \<in> set (L # ls). \<exists>name \<in> set (listed_names (APIResources L')). \<exists>u.
        deref w' a = Some u \<and> u \<in> set (listed e (FromAPIVersion (GroupVersion L')) name)"
    if "a \<in> set (G @ new)" for a
  proof (cases "a \<in> set G")
    case True
    with hg(4) obtain name u where "name \<in> set (listed_names (APIResources L))"
      "deref w1 a = Some u" "u \<in> set (listed e ?gv name)" by blast
    with deref_prefix [OF pre2] show ?thesis by auto
  next
    case False
    with that have "a \<in> set new" by simp
    with src show ?thesis by auto
  qed
  from 1 2 3 4 5 show ?case by blast
qed

lemma update_fresh_key:
  "k \<notin> fst ` set al \<Longrightarrow> AList.update k v al = al @ [(k, v)]"
  by (induction al) auto

lemma harvest_group_count:
  "slots_ok e gv base (set seen) results w \<Longrightarrow> distinct (seen @ listed_names apis) \<Longrightarrow>
   mset (map (deref w) (concat (map snd results)))
     = mset (map Some (concat (map (listed e gv) seen))) \<Longrightarrow>
   harvest_group e gv apis results w = (results', w') \<Longrightarrow>
   mset (map (deref w') (concat (map snd results')))
     = mset (map Some (concat (map (listed e gv) (seen @ listed_names apis))))"
proof (induction apis arbitrary: seen results w)
  case Nil
  then show ?case by (simp add: listed_names_def)
next
  case (Cons api apis)
  show ?case
  proof (cases "api_Kind api = ''Event''")
    case True
    with Cons.prems have "distinct (seen @ listed_names apis)"
      "harvest_group e gv apis results w = (results', w')"
      by (simp_all add: listed_names_Cons)
    from Cons.IH [OF Cons.prems(1) this(1) Cons.prems(3) this(2)] True show ?thesis
      by (simp add: listed_names_Cons)
  next
    case False
    let ?name = "api_Name api"
    let ?k = "gvr_String (WithResource gv ?name)"
    let ?new = "[length (heap w) ..< length (heap w) + length (listed e gv ?name)]"
    obtain err results1 w1 where
      g: "getObjectsForAResource e (WithResource gv ?name) results w = ((err, results1), w1)"
      by (metis surj_pair)
    from g have r1: "results1 = AList.update ?k ?new results"
      and w1: "w1 = w\<lparr>heap := heap w @ listed e gv ?name\<rparr>"
      by (simp_all add: getObjectsForAResource_result)
    from Cons.prems(2) False have fresh: "?name \<notin> set seen"
      and dist: "distinct ((seen @ [?name]) @ listed_names apis)"
      by (simp_all add: listed_names_Cons)
    from Cons.prems(1) have keys: "fst ` set results = (\<lambda>name. gvr_String (WithResource gv name)) ` set seen"
      and rg: "\<forall>a \<in> set (concat (map snd results)). a < length (heap w)"
      by (simp_all add: slots_ok_def)
    from keys fresh have "?k \<notin> fst ` set results" by auto
    with r1 have r1': "results1 = results @ [(?k, ?new)]" by (simp add: update_fresh_key)
    have inv1: "slots_ok e gv base (set (seen @ [?name])) results1 w1"
      using slots_ok_step [OF Cons.prems(1) g] by simp
    have old: "map (deref w1) (concat (map snd results)) = map (deref w) (concat (map snd results))"
      unfolding w1 by (rule deref_alloc_old [OF rg])
    have new: "map (deref w1) ?new = map Some (listed e gv ?name)"
      unfolding w1 by (rule deref_alloc_new)
    have "map (deref w1) (concat (map snd results1))
            = map (deref w) (concat (map snd results)) @ map Some (listed e gv ?name)"
      using old new by (simp add: r1')
    then have cnt1: "mset (map (deref w1) (concat (map snd results1)))
                  = mset (map Some (concat (map (listed e gv) (seen @ [?name]))))"
      using Cons.prems(3) by simp
    from Cons.prems(4) False g have step: "harvest_group e gv apis results1 w1 = (results', w')"
      by simp
    from Cons.IH [OF inv1 dist cnt1 step] False show ?thesis
      by (simp add: listed_names_Cons)
  qed
qed

lemma harvest_lists_count:
  "\<forall>L \<in> set ls. distinct (listed_names (APIResources L)) \<Longrightarrow>
   harvest_lists e ls acc w = (objs, w') \<Longrightarrow>
   mset (map (deref w') (drop (length acc) objs))
     = mset (map Some (concat (map (\<lambda>L. concat (map (listed e (FromAPIVersion (GroupVersion L)))
                                                  (listed_names (APIResources L)))) ls)))"
proof (induction ls arbitrary: acc w)
  case Nil
  then show ?case by simp
next
  case (Cons L ls)
  let ?gv = "FromAPIVersion (GroupVersion L)"
  obtain results w1 where g: "harvest_group e ?gv (APIResources L) [] w = (results, w1)"
    by (metis surj_pair)
  define G where "G = concat (map snd (range_map e results))"
  note hg = harvest_group_universe [OF g, folded G_def]
  from Cons.prems g have step: "harvest_lists e ls (acc @ G) w1 = (objs, w')"
    by (simp add: G_def)
  from harvest_lists_universe [OF step] obtain new where o: "objs = (acc @ G) @ new" by blast
  have pre2: "prefix (heap w1) (heap w')" using harvest_lists_frame [OF step] by simp
  from Cons.prems(1) have dL: "distinct ([] @ listed_names (APIResources L))"
    and drest: "\<forall>L \<in> set ls. distinct (listed_names (APIResources L))" by simp_all
  have e0: "slots_ok e ?gv (length (heap w)) (set []) [] w"
    by (simp add: slots_ok_empty)
  have "mset (map (deref w1) (concat (map snd results)))
          = mset (map Some (concat (map (listed e ?gv) ([] @ listed_names (APIResources L)))))"
    by (rule harvest_group_count [OF e0 dL _ g]) simp
  moreover have "mset G = mset (concat (map snd results))"
    unfolding G_def by (rule mset_concat_range_map)
  ultimately have c1: "mset (map (deref w1) G)
          = mset (map Some (concat (map (listed e ?gv) (listed_names (APIResources L)))))"
    by (metis append_Nil mset_map)
  have eqG: "map (deref w') G = map (deref w1) G"
    by (rule map_deref_prefix [OF pre2]) (use hg(2) in blast)
  have cG: "mset (map (deref w') G)
          = mset (map Some (concat (map (listed e ?gv) (listed_names (APIResources L)))))"
    using c1 by (simp only: eqG)
  from Cons.IH [OF drest step] o
  have cnew: "mset (map (deref w') new)
     = mset (map Some (concat (map (\<lambda>L. concat (map (listed e (FromAPIVersion (GroupVersion L)))
                                                  (listed_names (APIResources L)))) ls)))"
    by simp
  from o have "drop (length acc) objs = G @ new" by simp
  with cG cnew show ?case by simp
qed

text \<open>
  C8: when the discovery call succeeds, the harvest returns no error and its universe is
  a list of distinct addresses, all allocated by this harvest. For every resource that
  is not an Event kind and whose list call succeeds, the universe has a segment that
  points to the items of that call, in their order; and every entry of the universe
  points to an item of such a call. Where the resources of each group have distinct
  names, the universe holds the items of the listed resources with their multiplicity:
  it is a permutation (whole segments moved) of the concatenation of the results.
  The loop of lines 205-207 is read with per-iteration variables, as the Go version
  needed for the \<open>go-set/v3\<close> import prescribes.
\<close>

theorem universe_is_concatenation_of_list_results:
  assumes "ServerPreferredResources e = Inr ls" and "getAllObjects e w = ((objs, err), w')"
  shows "err = None \<and> distinct objs \<and>
    (\<forall>a \<in> set objs. length (heap w) \<le> a \<and> a < length (heap w')) \<and>
    (\<forall>L \<in> set ls. \<forall>api \<in> set (APIResources L). \<forall>items.
       api_Kind api \<noteq> ''Event'' \<and>
       ListResource e (WithResource (FromAPIVersion (GroupVersion L)) (api_Name api)) = Inr items
       \<longrightarrow> (\<exists>pre ptrs post. objs = pre @ ptrs @ post \<and> map (deref w') ptrs = map Some items)) \<and>
    (\<forall>a \<in> set objs. \<exists>L \<in> set ls. \<exists>api \<in> set (APIResources L). \<exists>items u.
       api_Kind api \<noteq> ''Event'' \<and>
       ListResource e (WithResource (FromAPIVersion (GroupVersion L)) (api_Name api)) = Inr items \<and>
       deref w' a = Some u \<and> u \<in> set items) \<and>
    ((\<forall>L \<in> set ls. distinct (listed_names (APIResources L))) \<longrightarrow>
       mset (map (deref w') objs)
         = mset (map Some (concat (map (\<lambda>L. concat (map (listed e (FromAPIVersion (GroupVersion L)))
                                                      (listed_names (APIResources L)))) ls))))"
proof -
  from assms have err: "err = None" and run: "harvest_lists e ls [] w = (objs, w')"
    by (auto simp: getAllObjects_def split: prod.splits)
  from harvest_lists_universe [OF run] have d: "distinct objs"
    and rg: "\<forall>a \<in> set objs. length (heap w) \<le> a \<and> a < length (heap w')"
    and seg: "\<forall>L \<in> set ls. \<forall>name \<in> set (listed_names (APIResources L)). \<exists>pre ptrs post.
        objs = pre @ ptrs @ post \<and>
        map (deref w') ptrs = map Some (listed e (FromAPIVersion (GroupVersion L)) name)"
    and src: "\<forall>a \<in> set objs. \<exists>L \<in> set ls. \<exists>name \<in> set (listed_names (APIResources L)). \<exists>u.
        deref w' a = Some u \<and> u \<in> set (listed e (FromAPIVersion (GroupVersion L)) name)"
    by auto
  have 4: "\<exists>pre ptrs post. objs = pre @ ptrs @ post \<and> map (deref w') ptrs = map Some items"
    if "L \<in> set ls" "api \<in> set (APIResources L)" "api_Kind api \<noteq> ''Event''"
      "ListResource e (WithResource (FromAPIVersion (GroupVersion L)) (api_Name api)) = Inr items"
    for L api items
  proof -
    from that(2,3) have "api_Name api \<in> set (listed_names (APIResources L))"
      by (auto simp: listed_names_def)
    moreover from that(4) have "listed e (FromAPIVersion (GroupVersion L)) (api_Name api) = items"
      by (simp add: listed_def)
    ultimately show ?thesis using seg that(1) by fastforce
  qed
  have 5: "\<exists>L \<in> set ls. \<exists>api \<in> set (APIResources L). \<exists>items u.
       api_Kind api \<noteq> ''Event'' \<and>
       ListResource e (WithResource (FromAPIVersion (GroupVersion L)) (api_Name api)) = Inr items \<and>
       deref w' a = Some u \<and> u \<in> set items"
    if "a \<in> set objs" for a
  proof -
    from src that obtain L name u where L: "L \<in> set ls"
      and n: "name \<in> set (listed_names (APIResources L))"
      and u: "deref w' a = Some u" "u \<in> set (listed e (FromAPIVersion (GroupVersion L)) name)"
      by blast
    from n obtain api where api: "api \<in> set (APIResources L)" "api_Kind api \<noteq> ''Event''"
      "api_Name api = name" by (auto simp: listed_names_def)
    from u(2) obtain items where
      "ListResource e (WithResource (FromAPIVersion (GroupVersion L)) name) = Inr items"
      "u \<in> set items"
      by (cases "ListResource e (WithResource (FromAPIVersion (GroupVersion L)) name)")
         (auto simp: listed_def)
    with L api u(1) show ?thesis by blast
  qed
  have 6: "mset (map (deref w') objs)
         = mset (map Some (concat (map (\<lambda>L. concat (map (listed e (FromAPIVersion (GroupVersion L)))
                                                      (listed_names (APIResources L)))) ls)))"
    if "\<forall>L \<in> set ls. distinct (listed_names (APIResources L))"
    using harvest_lists_count [OF that run] by simp
  from err d rg 4 5 6 show ?thesis by blast
qed

theorem universe_is_concatenation_of_list_results_witness:
  "ServerPreferredResources cluster1 = Inr catalog1 \<and>
   fst (getAllObjects cluster1 world1) = ([1, 2, 3], None) \<and>
   map (\<lambda>L. listed_names (APIResources L)) catalog1
     = [[''configmaps'', ''secrets''], [''appprojects'']] \<and>
   mset (map (deref (snd (getAllObjects cluster1 world1))) [1, 2, 3])
     = mset (map Some [cm1, sec1, proj1])"
proof -
  have 1: "ServerPreferredResources cluster1 = Inr catalog1" by (simp add: cluster1_def)
  have 2: "getAllObjects cluster1 world1 = (([1, 2, 3], None), snd (getAllObjects cluster1 world1))"
    by (simp add: cluster_defs engine_defs)
  have 3: "\<forall>L \<in> set catalog1. distinct (listed_names (APIResources L))"
    by (simp add: catalog1_def listed_names_def)
  have 4: "concat (map (\<lambda>L. concat (map (listed cluster1 (FromAPIVersion (GroupVersion L)))
                                      (listed_names (APIResources L)))) catalog1)
             = [cm1, sec1, proj1]"
    by (simp add: catalog1_def listed_names_def listed_def cluster1_def list1_def
        WithResource_def)
  have g: "fst (getAllObjects cluster1 world1) = ([1, 2, 3], None)"
    using 2 by (metis fst_conv)
  from universe_is_concatenation_of_list_results [OF 1 2] 3 4
  have "mset (map (deref (snd (getAllObjects cluster1 world1))) [1, 2, 3])
     = mset (map Some [cm1, sec1, proj1])"
    by simp
  moreover have "map (\<lambda>L. listed_names (APIResources L)) catalog1
     = [[''configmaps'', ''secrets''], [''appprojects'']]"
    by (simp add: catalog1_def listed_names_def)
  ultimately show ?thesis using 1 g by blast
qed

section \<open>Resolutions that return without error\<close>

text \<open>
  The theorems about the edges of an Application assume that its resolution returns
  without error. It does whenever the discovery call succeeds, \<open>spec.project\<close> is a
  string and the dispatcher resolves every object it is given.
\<close>

lemma deref_valid_prefix:
  "prefix (heap w) (heap w') \<Longrightarrow> deref w a \<noteq> None \<Longrightarrow> deref w' a \<noteq> None"
  using deref_prefix by fastforce

lemma track_children_returns:
  "heap_stable disp \<Longrightarrow> \<forall>a w. \<exists>c. fst (disp a w) = Return c None \<Longrightarrow>
   deref w app \<noteq> None \<Longrightarrow> \<forall>obj \<in> set objs. deref w obj \<noteq> None \<Longrightarrow>
   \<exists>cn' w'. track_children disp n projName app objs cn w = (Inr cn', w')"
proof (induction objs arbitrary: cn w)
  case Nil
  then show ?case by simp
next
  case (Cons obj objs)
  from Cons.prems(4) obtain o' where o': "deref w obj = Some o'" by auto
  have "\<exists>w1. project_edge disp n projName obj o' w = (None, w1)"
  proof (cases "is_project o' projName")
    case False
    then show ?thesis by (simp add: project_edge_def)
  next
    case True
    from Cons.prems(2) obtain c where c: "fst (disp obj w) = Return c None" by blast
    then obtain w0 where d: "disp obj w = (Return c None, w0)" by (metis prod.collapse)
    from deref_prefix [OF heap_stableD [OF Cons.prems(1) d] o']
    have "deref w0 obj = Some o'" .
    with True d show ?thesis by (simp add: project_edge_def)
  qed
  then obtain w1 where p: "project_edge disp n projName obj o' w = (None, w1)" by blast
  have pre: "prefix (heap w) (heap w1)" by (rule project_edge_heap [OF Cons.prems(1) p])
  from deref_prefix [OF pre o'] have o1: "deref w1 obj = Some o'" .
  from deref_valid_prefix [OF pre Cons.prems(3)] obtain a1 where a1: "deref w1 app = Some a1"
    by auto
  have "\<forall>x \<in> set objs. deref w1 x \<noteq> None"
    using Cons.prems(4) deref_valid_prefix [OF pre] by simp
  from Cons.IH [OF Cons.prems(1,2) _ this, of "track_signals obj o' (GetName a1) cn"] a1
  obtain cn' w' where
    "track_children disp n projName app objs (track_signals obj o' (GetName a1) cn) w1 = (Inr cn', w')"
    by auto
  with o' p o1 a1 show ?case by simp
qed

lemma namespace_closure_returns:
  "\<forall>obj \<in> set objs. deref w obj \<noteq> None \<Longrightarrow>
   \<exists>children'. namespace_closure w namespaces objs children = Some children'"
  by (induction objs arbitrary: children) auto

lemma resolve_children_returns:
  "heap_stable disp \<Longrightarrow> \<forall>a w. \<exists>c. fst (disp a w) = Return c None \<Longrightarrow>
   \<forall>c \<in> set cs. deref w c \<noteq> None \<Longrightarrow>
   \<exists>w'. resolve_children disp n cs w = (Return (Some n) None, w')"
proof (induction cs arbitrary: w)
  case Nil
  then show ?case by simp
next
  case (Cons x cs)
  from Cons.prems(2) obtain c where "fst (disp x w) = Return c None" by blast
  then obtain w1 where d: "disp x w = (Return c None, w1)" by (metis prod.collapse)
  have pre: "prefix (heap w) (heap w1)" by (rule heap_stableD [OF Cons.prems(1) d])
  from Cons.prems(3) deref_valid_prefix [OF pre] obtain o1 where o1: "deref w1 x = Some o1"
    by fastforce
  have "\<forall>c \<in> set cs. deref (Relationship n (GetKind o1) c' w1) c \<noteq> None" for c'
    using Cons.prems(3) deref_valid_prefix [OF pre] by simp
  from Cons.IH [OF Cons.prems(1,2) this] d o1 show ?case by simp
qed

lemma getAllObjects_valid:
  assumes "getAllObjects e w = ((objs, err), w')"
  shows "\<forall>a \<in> set objs. a < length (heap w')"
proof (cases "ServerPreferredResources e")
  case (Inl x)
  with assms show ?thesis by (simp add: getAllObjects_def)
next
  case (Inr ls)
  with assms have "harvest_lists e ls [] w = (objs, w')"
    by (auto simp: getAllObjects_def split: prod.splits)
  from harvest_lists_universe [OF this] show ?thesis by auto
qed

lemma Application_returns:
  assumes hs: "heap_stable disp" and good: "\<forall>a w. \<exists>c. fst (disp a w) = Return c None"
    and app: "deref w app = Some a" and spec: "spec_project (Object_spec a) = Some projName"
    and catalog: "ServerPreferredResources e = Inr ls"
  shows "\<exists>w'. Application e disp app w = (Return (Some (node_of a)) None, w')"
proof -
  obtain objs err w2 where g: "getAllObjects e (snd (graph_Node a w)) = ((objs, err), w2)"
    by (metis surj_pair)
  have err: "err = None"
    using getAllObjects_no_error [OF catalog, of "snd (graph_Node a w)"] g by simp
  have valid: "\<forall>x \<in> set objs. deref w2 x \<noteq> None"
    using getAllObjects_valid [OF g] by (simp add: deref_def)
  have a2: "deref w2 app = Some a"
    using deref_prefix [OF getAllObjects_frame(1) [OF g]] app by simp
  from track_children_returns [OF hs good _ valid, of app "node_of a" projName "([], [])"] a2
  obtain children namespaces w3 where
    t: "track_children disp (node_of a) projName app objs ([], []) w2 = (Inr (children, namespaces), w3)"
    by fastforce
  have pre: "prefix (heap w2) (heap w3)" by (rule track_children_heap [OF hs t])
  have valid3: "\<forall>x \<in> set objs. deref w3 x \<noteq> None"
    using valid deref_valid_prefix [OF pre] by simp
  from namespace_closure_returns [OF valid3] obtain children' where
    c: "namespace_closure w3 namespaces objs children = Some children'" by blast
  have "set children \<subseteq> set objs"
    using track_children_sets [OF hs deref_prefix [OF pre a2] t] by auto
  with namespace_closure_set [OF c] have "set (Slice e children') \<subseteq> set objs" by auto
  with valid3 have "\<forall>x \<in> set (Slice e children'). deref w3 x \<noteq> None" by blast
  from resolve_children_returns [OF hs good this] obtain w' where
    "resolve_children disp (node_of a) (Slice e children') w3 = (Return (Some (node_of a)) None, w')"
    by blast
  with app spec g err t c show ?thesis by (simp add: Application_unfold)
qed

section \<open>A failed child\<close>











end
